theory Spec2Isabelle
  imports Complex_Main "HOL-Library.Log_Nat"
begin

section \<open>JavaScript numbers\<close>

text \<open>
  A JavaScript \<^verbatim>\<open>number\<close> is an IEEE 754 binary64 value. The finite values are
  modelled by the rationals they denote; the two zeros are one value \<open>Fin 0\<close>
  (the program never divides by a zero and never prints the sign of one).
  Every arithmetic operation computes the exact rational result and rounds it
  with \<open>rnd\<close>: round to nearest, ties to even, 53 significant bits, gradual
  underflow below \<open>2 powi - 1022\<close> and overflow to an infinity from
  \<open>2 powi 1024\<close> on.
\<close>

datatype jsnum = NaN | NInf | Fin rat | PInf

definition ilog2 :: "rat \<Rightarrow> int" where
  \<comment> \<open>the binary exponent of a positive rational: \<open>2 powi ilog2 x \<le> x < 2 powi (ilog2 x + 1)\<close>\<close>
  "ilog2 x = (if 1 \<le> x then bitlen \<lfloor>x\<rfloor> - 1 else - bitlen (\<lceil>1 / x\<rceil> - 1))"

definition rne :: "rat \<Rightarrow> int" where
  \<comment> \<open>the nearest integer, a tie going to the even one\<close>
  "rne x = (let f = \<lfloor>x\<rfloor>; d = x - of_int f in
     if d < 1 / 2 then f else if 1 / 2 < d then f + 1 else if even f then f else f + 1)"

definition quantum :: "rat \<Rightarrow> rat" where
  \<comment> \<open>the spacing of binary64 values around a positive rational\<close>
  "quantum a = 2 powi (max (ilog2 a) (- 1022) - 52)"

definition rnd :: "rat \<Rightarrow> jsnum" where
  "rnd x = (if x = 0 then Fin 0 else
     let a = \<bar>x\<bar>; u = quantum a; r = of_int (rne (a / u)) * u in
     if 2 powi 1024 \<le> r then (if 0 < x then PInf else NInf) else Fin (sgn x * r))"

fun js_neg :: "jsnum \<Rightarrow> jsnum" where
  "js_neg NaN = NaN"
| "js_neg NInf = PInf"
| "js_neg PInf = NInf"
| "js_neg (Fin a) = Fin (- a)"

fun js_add :: "jsnum \<Rightarrow> jsnum \<Rightarrow> jsnum" where
  "js_add (Fin a) (Fin b) = rnd (a + b)"
| "js_add NaN y = NaN"
| "js_add x NaN = NaN"
| "js_add PInf NInf = NaN"
| "js_add NInf PInf = NaN"
| "js_add PInf y = PInf"
| "js_add NInf y = NInf"
| "js_add (Fin a) y = y"

definition js_sub :: "jsnum \<Rightarrow> jsnum \<Rightarrow> jsnum" where
  "js_sub x y = js_add x (js_neg y)"

fun js_sign :: "jsnum \<Rightarrow> rat" where
  "js_sign (Fin a) = sgn a"
| "js_sign PInf = 1"
| "js_sign NInf = - 1"
| "js_sign NaN = 0"

definition inf_of_sign :: "rat \<Rightarrow> jsnum" where
  "inf_of_sign s = (if s = 0 then NaN else if 0 < s then PInf else NInf)"

fun js_mul :: "jsnum \<Rightarrow> jsnum \<Rightarrow> jsnum" where
  "js_mul (Fin a) (Fin b) = rnd (a * b)"
| "js_mul NaN y = NaN"
| "js_mul x NaN = NaN"
| "js_mul x y = inf_of_sign (js_sign x * js_sign y)"

fun js_div :: "jsnum \<Rightarrow> jsnum \<Rightarrow> jsnum" where
  "js_div (Fin a) (Fin b) = (if b = 0 then inf_of_sign (sgn a) else rnd (a / b))"
| "js_div NaN y = NaN"
| "js_div x NaN = NaN"
| "js_div (Fin a) y = Fin 0"
| "js_div x (Fin b) = inf_of_sign (js_sign x * (if b < 0 then - 1 else 1))"
| "js_div x y = NaN"

fun js_lt :: "jsnum \<Rightarrow> jsnum \<Rightarrow> bool" where
  "js_lt (Fin a) (Fin b) = (a < b)"
| "js_lt NaN y = False"
| "js_lt x NaN = False"
| "js_lt NInf y = (y \<noteq> NInf)"
| "js_lt x PInf = (x \<noteq> PInf)"
| "js_lt x y = False"

definition js_gt :: "jsnum \<Rightarrow> jsnum \<Rightarrow> bool" where
  "js_gt x y = js_lt y x"

definition js_ge :: "jsnum \<Rightarrow> jsnum \<Rightarrow> bool" where
  "js_ge x y = (x \<noteq> NaN \<and> y \<noteq> NaN \<and> \<not> js_lt x y)"

definition truthy :: "jsnum \<Rightarrow> bool" where
  \<comment> \<open>ToBoolean on a number: zero and NaN are falsy\<close>
  "truthy x = (x \<noteq> NaN \<and> x \<noteq> Fin 0)"

definition js_or :: "jsnum \<Rightarrow> jsnum \<Rightarrow> jsnum" where
  \<comment> \<open>\<^verbatim>\<open>x || y\<close> on numbers\<close>
  "js_or x y = (if truthy x then x else y)"

fun Math_round :: "jsnum \<Rightarrow> jsnum" where
  \<comment> \<open>the nearest integer, a tie going up\<close>
  "Math_round (Fin a) = Fin (of_int \<lfloor>a + 1 / 2\<rfloor>)"
| "Math_round x = x"

definition Number_of_nat :: "nat \<Rightarrow> jsnum" where
  \<comment> \<open>\<^verbatim>\<open>Number(v)\<close> of a bigint, and a counter read as a number\<close>
  "Number_of_nat n = rnd (of_nat n)"

definition on_grid :: "jsnum \<Rightarrow> bool" where
  \<comment> \<open>every finite binary64 value is an integer multiple of \<open>2 powi - 1074\<close>\<close>
  "on_grid x = (case x of Fin a \<Rightarrow> of_int \<lfloor>a * 2 ^ 1074\<rfloor> = a * 2 ^ 1074 | _ \<Rightarrow> True)"

section \<open>Strings\<close>

text \<open>
  Strings are byte strings; \<open>toLowerCase\<close> maps the Latin capitals to the small
  letters and leaves every other character as it is (addresses are
  hexadecimal ASCII).
\<close>

definition lower_char :: "char \<Rightarrow> char" where
  "lower_char c =
     (case map_of (zip ''ABCDEFGHIJKLMNOPQRSTUVWXYZ'' ''abcdefghijklmnopqrstuvwxyz'') c of
        Some d \<Rightarrow> d | None \<Rightarrow> c)"

definition toLowerCase :: "string \<Rightarrow> string" where
  "toLowerCase s = map lower_char s"

definition truthy_str :: "string option \<Rightarrow> string option" where
  \<comment> \<open>an optional string in a boolean position: \<^verbatim>\<open>undefined\<close> and \<^verbatim>\<open>""\<close> are falsy\<close>
  "truthy_str x = (case x of None \<Rightarrow> None | Some s \<Rightarrow> if s = [] then None else Some s)"

subsection \<open>\<^verbatim>\<open>Number(string)\<close>\<close>

text \<open>
  The conversion of a string to a number (ECMAScript \<^verbatim>\<open>StringToNumber\<close>): white
  space is trimmed (of a byte string: the ASCII white space), the empty string is
  0, a numeric literal (a signed decimal literal with an optional fraction and
  exponent, \<^verbatim>\<open>Infinity\<close>, or an unsigned binary, octal or hexadecimal integer) is
  rounded to the nearest binary64 value and anything else is NaN.
\<close>

definition is_ws :: "char \<Rightarrow> bool" where
  "is_ws c = (c \<in> set [CHR 0x09, CHR 0x0A, CHR 0x0B, CHR 0x0C, CHR 0x0D, CHR 0x20])"

definition trim :: "string \<Rightarrow> string" where
  "trim s = rev (dropWhile is_ws (rev (dropWhile is_ws s)))"

definition digit_val :: "char \<Rightarrow> nat option" where
  "digit_val c =
     map_of (zip ''0123456789abcdefABCDEF''
       [0, 1, 2, 3, 4, 5, 6, 7, 8, 9, 10, 11, 12, 13, 14, 15, 10, 11, 12, 13, 14, 15]) c"

fun digits_acc :: "nat \<Rightarrow> nat \<Rightarrow> string \<Rightarrow> nat option" where
  "digits_acc b acc [] = Some acc"
| "digits_acc b acc (c # cs) =
     (case digit_val c of
        None \<Rightarrow> None
      | Some d \<Rightarrow> if d < b then digits_acc b (acc * b + d) cs else None)"

definition digits_value :: "nat \<Rightarrow> string \<Rightarrow> nat option" where
  \<comment> \<open>the value of a non-empty string of digits in base \<open>b\<close>\<close>
  "digits_value b s = (if s = [] then None else digits_acc b 0 s)"

definition parse_exponent :: "string \<Rightarrow> int option" where
  "parse_exponent s =
     (case s of
        [] \<Rightarrow> None
      | c # r \<Rightarrow>
          if c = CHR ''+'' then map_option int (digits_value 10 r)
          else if c = CHR ''-'' then map_option (\<lambda>n. - int n) (digits_value 10 r)
          else map_option int (digits_value 10 s))"

definition parse_mantissa :: "string \<Rightarrow> rat option" where
  "parse_mantissa s =
     (let ip = takeWhile (\<lambda>c. c \<noteq> CHR ''.'') s; rest = dropWhile (\<lambda>c. c \<noteq> CHR ''.'') s in
      case rest of
        [] \<Rightarrow> map_option of_nat (digits_value 10 ip)
      | _ # fp \<Rightarrow>
          if ip = [] then map_option (\<lambda>f. of_nat f / 10 ^ length fp) (digits_value 10 fp)
          else (case digits_value 10 ip of
                  None \<Rightarrow> None
                | Some i \<Rightarrow>
                    if fp = [] then Some (of_nat i)
                    else map_option (\<lambda>f. of_nat i + of_nat f / 10 ^ length fp)
                           (digits_value 10 fp)))"

definition StrUnsignedDecimalLiteral :: "rat \<Rightarrow> string \<Rightarrow> jsnum" where
  "StrUnsignedDecimalLiteral sg s =
     (if s = ''Infinity'' then inf_of_sign sg
      else
        let m = takeWhile (\<lambda>c. c \<noteq> CHR ''e'' \<and> c \<noteq> CHR ''E'') s;
            rest = dropWhile (\<lambda>c. c \<noteq> CHR ''e'' \<and> c \<noteq> CHR ''E'') s in
        case parse_mantissa m of
          None \<Rightarrow> NaN
        | Some mv \<Rightarrow>
            (case rest of
               [] \<Rightarrow> rnd (sg * mv)
             | _ # ex \<Rightarrow>
                 (case parse_exponent ex of
                    None \<Rightarrow> NaN
                  | Some e \<Rightarrow> rnd (sg * mv * 10 powi e))))"

definition radix_of :: "char \<Rightarrow> nat option" where
  "radix_of c = map_of (zip ''bBoOxX'' [2, 2, 8, 8, 16, 16]) c"

definition StringToNumber :: "string \<Rightarrow> jsnum" where
  "StringToNumber s =
     (case trim s of
        [] \<Rightarrow> Fin 0
      | c # r \<Rightarrow>
          if c = CHR ''+'' then StrUnsignedDecimalLiteral 1 r
          else if c = CHR ''-'' then StrUnsignedDecimalLiteral (- 1) r
          else (case (if c = CHR ''0'' then r else []) of
                  p # ds \<Rightarrow>
                    (case radix_of p of
                       Some b \<Rightarrow> (case digits_value b ds of None \<Rightarrow> NaN | Some n \<Rightarrow> rnd (of_nat n))
                     | None \<Rightarrow> StrUnsignedDecimalLiteral 1 (c # r))
                | [] \<Rightarrow> StrUnsignedDecimalLiteral 1 (c # r)))"

section \<open>Data model\<close>

record Payment =
  grossAmount :: "string option"
  grossReward :: "string option"

record Bounty =
  id_b :: string
  title_b :: string
  description :: string
  status_b :: string
  reward_b :: string
  rewardFormatted :: string
  tags_b :: "string list option"
  claimedBy :: "string option"
  createdAt :: "string option"
  completedAt :: "string option"
  payment :: "Payment option"

record Feedback =
  from_f :: string
  score_f :: jsnum
  comment :: string
  timestamp :: jsnum

record OnChainReputation =
  address_oc :: string
  reputationScore :: jsnum
  feedback :: "Feedback list"

record HistoryEntry =
  bountyId :: string
  title :: string
  reward :: jsnum
  status :: string
  date :: string

record AgentProfile =
  address :: string
  onChainReputation :: jsnum
  totalEarnings :: jsnum
  bountiesCompleted :: nat
  bountiesClaimed :: nat
  successRate :: jsnum
  tags :: "(string \<times> nat) list"
  recentFeedback :: "Feedback list"
  history :: "HistoryEntry list"

text \<open>
  The two counters start at 0 and are only incremented, once per element of
  an array, so they stay below \<open>2 ^ 53\<close> and are natural numbers.
\<close>

subsection \<open>\<^verbatim>\<open>Map\<close>\<close>

text \<open>
  A JavaScript \<^verbatim>\<open>Map\<close> keeps its entries in insertion order and holds a key
  once: an association list whose keys are distinct. \<^verbatim>\<open>set\<close> on a present key
  replaces the value where it stands, on a new key it appends.
\<close>

type_synonym ('k, 'v) jsmap = "('k \<times> 'v) list"

definition Map_get :: "('k, 'v) jsmap \<Rightarrow> 'k \<Rightarrow> 'v option" where
  "Map_get m k = map_of m k"

definition Map_has :: "('k, 'v) jsmap \<Rightarrow> 'k \<Rightarrow> bool" where
  "Map_has m k = (map_of m k \<noteq> None)"

primrec Map_set :: "('k, 'v) jsmap \<Rightarrow> 'k \<Rightarrow> 'v \<Rightarrow> ('k, 'v) jsmap" where
  "Map_set [] k v = [(k, v)]"
| "Map_set (p # ps) k v = (if fst p = k then (k, v) # ps else p # Map_set ps k v)"

definition Map_values :: "('k, 'v) jsmap \<Rightarrow> 'v list" where
  "Map_values m = map snd m"

section \<open>The aggregator\<close>

definition slice_last :: "nat \<Rightarrow> 'a list \<Rightarrow> 'a list" where
  \<comment> \<open>\<^verbatim>\<open>xs.slice(-n)\<close>\<close>
  "slice_last n xs = drop (length xs - n) xs"

definition seedProfile :: "string \<Rightarrow> OnChainReputation option \<Rightarrow> AgentProfile" where
  \<comment> \<open>the profile created for a claimant first seen in the bounty list\<close>
  "seedProfile addr onChain =
     \<lparr> address = addr,
       onChainReputation =
         (case onChain of None \<Rightarrow> Fin 0 | Some oc \<Rightarrow> js_or (reputationScore oc) (Fin 0)),
       totalEarnings = Fin 0,
       bountiesCompleted = 0,
       bountiesClaimed = 0,
       successRate = Fin 0,
       tags = [],
       recentFeedback = (case onChain of None \<Rightarrow> [] | Some oc \<Rightarrow> slice_last 10 (feedback oc)),
       history = [] \<rparr>"

definition amountOf :: "Payment \<Rightarrow> jsnum" where
  \<comment> \<open>\<^verbatim>\<open>Number(b.payment.grossAmount || b.payment.grossReward || 0)\<close>\<close>
  "amountOf pay =
     (case truthy_str (grossAmount pay) of
        Some s \<Rightarrow> StringToNumber s
      | None \<Rightarrow>
          (case truthy_str (grossReward pay) of
             Some s \<Rightarrow> StringToNumber s
           | None \<Rightarrow> Fin 0))"

definition rewardOf :: "Bounty \<Rightarrow> jsnum" where
  "rewardOf b =
     (if status_b b = ''completed'' then
        (case payment b of
           None \<Rightarrow> Fin 0
         | Some pay \<Rightarrow> js_div (amountOf pay) (Fin 1000000))
      else Fin 0)"

definition countTag :: "string \<Rightarrow> (string \<times> nat) list \<Rightarrow> (string \<times> nat) list" where
  \<comment> \<open>\<^verbatim>\<open>agent.tags[tag] = (agent.tags[tag] || 0) + 1\<close>, on the own properties of the object\<close>
  "countTag tag t = Map_set t tag ((case Map_get t tag of None \<Rightarrow> 0 | Some n \<Rightarrow> n) + 1)"

definition applyBounty :: "Bounty \<Rightarrow> AgentProfile \<Rightarrow> AgentProfile" where
  \<comment> \<open>what one claimed bounty does to the profile of its claimant\<close>
  "applyBounty b agent =
     (let rew = rewardOf b;
          agent1 = agent\<lparr> bountiesClaimed := bountiesClaimed agent + 1 \<rparr>;
          agent2 =
            (if status_b b = ''completed''
             then agent1\<lparr> bountiesCompleted := bountiesCompleted agent1 + 1,
                          totalEarnings := js_add (totalEarnings agent1) rew \<rparr>
             else agent1);
          agent3 =
            agent2\<lparr> tags := fold countTag (case tags_b b of None \<Rightarrow> [] | Some ts \<Rightarrow> ts) (tags agent2) \<rparr>
      in agent3\<lparr> history := history agent3 @
           [\<lparr> bountyId = id_b b,
              title = (if title_b b = [] then ''Untitled'' else title_b b),
              reward = rew,
              status = status_b b,
              date = (case truthy_str (createdAt b) of None \<Rightarrow> [] | Some d \<Rightarrow> d) \<rparr>] \<rparr>)"

definition processBounty ::
  "(string, OnChainReputation) jsmap \<Rightarrow> Bounty \<Rightarrow> (string, AgentProfile) jsmap
     \<Rightarrow> (string, AgentProfile) jsmap" where
  \<comment> \<open>the body of the loop over the bounties\<close>
  "processBounty onChainData b agents =
     (case truthy_str (claimedBy b) of
        None \<Rightarrow> agents
      | Some addr \<Rightarrow>
          let addrLower = toLowerCase addr;
              agents1 =
                (if \<not> Map_has agents addrLower
                 then Map_set agents addrLower (seedProfile addr (Map_get onChainData addrLower))
                 else agents)
          in (case Map_get agents1 addrLower of
                Some agent \<Rightarrow> Map_set agents1 addrLower (applyBounty b agent)
              | None \<Rightarrow> agents1))"

definition onChainProfile :: "OnChainReputation \<Rightarrow> AgentProfile" where
  \<comment> \<open>the profile of an agent known on chain only\<close>
  "onChainProfile onChain =
     \<lparr> address = address_oc onChain,
       onChainReputation = reputationScore onChain,
       totalEarnings = Fin 0,
       bountiesCompleted = 0,
       bountiesClaimed = 0,
       successRate = Fin 0,
       tags = [],
       recentFeedback = slice_last 10 (feedback onChain),
       history = [] \<rparr>"

definition addOnChain ::
  "string \<times> OnChainReputation \<Rightarrow> (string, AgentProfile) jsmap \<Rightarrow> (string, AgentProfile) jsmap" where
  \<comment> \<open>the body of the loop over the on-chain map\<close>
  "addOnChain e agents =
     (if \<not> Map_has agents (fst e) then Map_set agents (fst e) (onChainProfile (snd e))
      else agents)"

definition rateOf :: "nat \<Rightarrow> nat \<Rightarrow> jsnum" where
  \<comment> \<open>\<^verbatim>\<open>claimed > 0 ? Math.round((completed / claimed) * 100) : 0\<close>\<close>
  "rateOf completed claimed =
     (if 0 < claimed
      then Math_round (js_mul (js_div (Number_of_nat completed) (Number_of_nat claimed)) (Fin 100))
      else Fin 0)"

definition setRate :: "AgentProfile \<Rightarrow> AgentProfile" where
  "setRate agent = agent\<lparr> successRate := rateOf (bountiesCompleted agent) (bountiesClaimed agent) \<rparr>"

definition compareAgents :: "AgentProfile \<Rightarrow> AgentProfile \<Rightarrow> jsnum" where
  \<comment> \<open>the comparator handed to \<^verbatim>\<open>sort\<close>\<close>
  "compareAgents a b =
     js_or (js_sub (onChainReputation b) (onChainReputation a))
           (js_sub (totalEarnings b) (totalEarnings a))"

text \<open>
  \<^verbatim>\<open>Array.prototype.sort\<close> is stable; an element goes behind another exactly when
  the comparator returns a number above 0 for the pair (NaN counts as 0). The
  model is the stable insertion sort, which is the result of every stable sort
  whenever the comparator is an ordering of the elements; when it is none, the
  language leaves the order to the implementation.
\<close>

fun sort_insert :: "('a \<Rightarrow> 'a \<Rightarrow> jsnum) \<Rightarrow> 'a \<Rightarrow> 'a list \<Rightarrow> 'a list" where
  "sort_insert cmp x [] = [x]"
| "sort_insert cmp x (y # ys) =
     (if js_gt (cmp x y) (Fin 0) then y # sort_insert cmp x ys else x # y # ys)"

definition js_sort :: "('a \<Rightarrow> 'a \<Rightarrow> jsnum) \<Rightarrow> 'a list \<Rightarrow> 'a list" where
  "js_sort cmp xs = foldr (sort_insert cmp) xs []"

definition aggregateMap ::
  "Bounty list \<Rightarrow> (string, OnChainReputation) jsmap \<Rightarrow> (string, AgentProfile) jsmap" where
  \<comment> \<open>the map \<^verbatim>\<open>agents\<close> when the three loops are done\<close>
  "aggregateMap bounties onChainData =
     map (\<lambda>(k, agent). (k, setRate agent))
       (fold addOnChain onChainData (fold (processBounty onChainData) bounties []))"

definition aggregateAgents ::
  "Bounty list \<Rightarrow> (string, OnChainReputation) jsmap \<Rightarrow> AgentProfile list" where
  "aggregateAgents bounties onChainData =
     js_sort compareAgents (Map_values (aggregateMap bounties onChainData))"

section \<open>The on-chain reader\<close>

text \<open>
  The outcome of an awaited call is a value or a rejection. What the registry
  and the bounty API answer is the world the program runs in; the order in
  which concurrent tasks finish is a schedule. A value that the program takes
  for an array is an array or something else: the feedback is tested with
  \<^verbatim>\<open>Array.isArray\<close>, the body of the bounty response is cast unchecked, and a
  method call on what is no array throws.

  The cast checks the entries of the body as little as the body. An entry is
  an object whose fields are what the interface \<^verbatim>\<open>Bounty\<close> declares, or it is
  something the program cannot read: \<^verbatim>\<open>null\<close>, of which no property can be read;
  an object with a truthy title whose \<^verbatim>\<open>claimedBy\<close> is truthy and no string, so
  that it has no method \<^verbatim>\<open>toLowerCase\<close>; an object with a truthy title, claimed
  by a string, whose \<^verbatim>\<open>tags\<close> are truthy and cannot be iterated. An entry other
  than \<^verbatim>\<open>null\<close> that has no truthy title is dropped before another field of it
  is read, as a bounty with an empty title is.
\<close>

datatype 'a settled = Fulfilled 'a | Rejected

datatype exn = TypeError

record RawFeedback =
  raw_from :: "string option"
  raw_score :: "int option"
  raw_comment :: "string option"
  raw_timestamp :: "nat option"

datatype 'a json = JArray "'a list" | JOther

datatype entry =
    Shaped Bounty
  | Null
  | NoStringClaimant
  | NoIterableTags string

record World =
  getReputation :: "string \<Rightarrow> nat settled"
  getFeedback :: "string \<Rightarrow> RawFeedback option json settled"
  getAgentCount :: "nat settled"
  getAgentByIndex :: "nat \<Rightarrow> string settled"
  bountiesRes :: "entry json settled"

record Schedule =
  enumOrder :: "nat list \<Rightarrow> nat list"
  backfillOrder :: "string list \<Rightarrow> string list"

datatype request =
  FetchBounties | ReadAgentCount | ReadAgentByIndex nat | ReadReputation string | ReadFeedback string

definition convertEntry :: "RawFeedback \<Rightarrow> Feedback" where
  "convertEntry f =
     \<lparr> from_f = (case truthy_str (raw_from f) of Some s \<Rightarrow> s | None \<Rightarrow> []),
       score_f = (case raw_score f of Some n \<Rightarrow> rnd (of_int n) | None \<Rightarrow> Fin 0),
       comment = (case truthy_str (raw_comment f) of Some s \<Rightarrow> s | None \<Rightarrow> []),
       timestamp = (case raw_timestamp f of Some t \<Rightarrow> Number_of_nat t | None \<Rightarrow> Fin 0) \<rparr>"

fun convertFeedback :: "RawFeedback option list \<Rightarrow> Feedback list \<Rightarrow> exn + Feedback list" where
  \<comment> \<open>the loop over \<^verbatim>\<open>feedback.value\<close>; reading a property of a missing element throws\<close>
  "convertFeedback [] feedbackEntries = Inr feedbackEntries"
| "convertFeedback (None # fs) feedbackEntries = Inl TypeError"
| "convertFeedback (Some f # fs) feedbackEntries =
     convertFeedback fs (feedbackEntries @ [convertEntry f])"

definition readOnChainReputation ::
  "string \<Rightarrow> nat settled \<Rightarrow> RawFeedback option json settled \<Rightarrow> exn + OnChainReputation" where
  \<comment> \<open>the \<^verbatim>\<open>try\<close> block of \<^verbatim>\<open>fetchOnChainReputation\<close>, on the two settled reads\<close>
  "readOnChainReputation addr reputation fb =
     (let repScore = (case reputation of Fulfilled v \<Rightarrow> Number_of_nat v | Rejected \<Rightarrow> Fin 0) in
      case (case fb of Fulfilled (JArray fs) \<Rightarrow> convertFeedback fs [] | _ \<Rightarrow> Inr []) of
        Inl e \<Rightarrow> Inl e
      | Inr feedbackEntries \<Rightarrow>
          Inr \<lparr> address_oc = addr, reputationScore = repScore, feedback = feedbackEntries \<rparr>)"

definition fetchOnChainReputation :: "World \<Rightarrow> string \<Rightarrow> exn + OnChainReputation" where
  "fetchOnChainReputation w addr =
     (case readOnChainReputation addr (getReputation w addr) (getFeedback w addr) of
        Inr rep \<Rightarrow> Inr rep
      | Inl e \<Rightarrow> Inr \<lparr> address_oc = addr, reputationScore = Fin 0, feedback = [] \<rparr>)"

definition enumStep ::
  "World \<Rightarrow> nat \<Rightarrow> (string, OnChainReputation) jsmap \<Rightarrow> (string, OnChainReputation) jsmap" where
  \<comment> \<open>the task of one index, run when it finishes\<close>
  "enumStep w i reputationMap =
     (case getAgentByIndex w i of
        Rejected \<Rightarrow> reputationMap
      | Fulfilled agentAddr \<Rightarrow>
          (case fetchOnChainReputation w agentAddr of
             Inl e \<Rightarrow> reputationMap
           | Inr rep \<Rightarrow> Map_set reputationMap (toLowerCase agentAddr) rep))"

definition fetchAllOnChainAgents ::
  "World \<Rightarrow> Schedule \<Rightarrow> exn + (string, OnChainReputation) jsmap" where
  "fetchAllOnChainAgents w sch =
     (let count = (case getAgentCount w of Fulfilled n \<Rightarrow> n | Rejected \<Rightarrow> 0) in
      if 0 < count
      then (let batchSize = min count 50
            in Inr (fold (enumStep w) (enumOrder sch [0..<batchSize]) []))
      else Inr [])"

text \<open>
  \<^verbatim>\<open>Number(countResult)\<close> is above 0 exactly when the count is, and its minimum
  with 50 is that of the count, so the batch size is computed on the naturals.
\<close>

section \<open>The profile cache and the profile routes\<close>

record Cache =
  cachedAgents :: "AgentProfile list option"
  cacheTime :: int

definition CACHE_TTL :: int where
  "CACHE_TTL = 60000"

definition Set_of :: "'a list \<Rightarrow> 'a list" where
  \<comment> \<open>\<^verbatim>\<open>new Set(xs)\<close>, in insertion order\<close>
  "Set_of xs = fold (\<lambda>x s. if x \<in> set s then s else s @ [x]) xs []"

definition backfillStep ::
  "World \<Rightarrow> string \<Rightarrow> (string, OnChainReputation) jsmap \<Rightarrow> (string, OnChainReputation) jsmap" where
  "backfillStep w addr onChain =
     (case fetchOnChainReputation w addr of
        Inl e \<Rightarrow> onChain
      | Inr rep \<Rightarrow>
          if js_gt (reputationScore rep) (Fin 0) \<or> 0 < length (feedback rep)
          then Map_set onChain addr rep else onChain)"

definition reputationRequests :: "string \<Rightarrow> request list" where
  "reputationRequests addr = [ReadReputation addr, ReadFeedback addr]"

definition enumRequests :: "World \<Rightarrow> request list" where
  "enumRequests w =
     ReadAgentCount #
     (case getAgentCount w of
        Rejected \<Rightarrow> []
      | Fulfilled count \<Rightarrow>
          concat (map (\<lambda>i. ReadAgentByIndex i #
                    (case getAgentByIndex w i of
                       Rejected \<Rightarrow> [] | Fulfilled agentAddr \<Rightarrow> reputationRequests agentAddr))
                  [0..<min count 50]))"

definition titled :: "entry \<Rightarrow> bool" where
  \<comment> \<open>\<^verbatim>\<open>b.title\<close> is truthy; it is not asked of \<^verbatim>\<open>null\<close>, on which reading it throws\<close>
  "titled b =
     (case b of
        Shaped x \<Rightarrow> title_b x \<noteq> []
      | Null \<Rightarrow> False
      | NoStringClaimant \<Rightarrow> True
      | NoIterableTags a \<Rightarrow> True)"

definition filterTitled :: "entry json settled \<Rightarrow> exn + entry list" where
  \<comment> \<open>\<^verbatim>\<open>bountiesRes.status === "fulfilled" ? bountiesRes.value.filter((b) => b.title) : []\<close>:
      the call throws on a body that is no array, the callback on an entry \<^verbatim>\<open>null\<close>\<close>
  "filterTitled res =
     (case res of
        Fulfilled (JArray bs) \<Rightarrow>
          if Null \<in> set bs then Inl TypeError else Inr (filter titled bs)
      | Fulfilled JOther \<Rightarrow> Inl TypeError
      | Rejected \<Rightarrow> Inr [])"

definition claimantOf :: "entry \<Rightarrow> string list" where
  \<comment> \<open>\<^verbatim>\<open>b.claimedBy\<close> of an entry where it is a truthy string\<close>
  "claimantOf b =
     (case b of
        Shaped x \<Rightarrow> (case truthy_str (claimedBy x) of Some a \<Rightarrow> [a] | None \<Rightarrow> [])
      | NoIterableTags a \<Rightarrow> (if a = [] then [] else [a])
      | _ \<Rightarrow> [])"

definition lowerClaimants :: "entry list \<Rightarrow> exn + string list" where
  \<comment> \<open>\<^verbatim>\<open>bounties.filter((b) => b.claimedBy).map((b) => b.claimedBy!.toLowerCase())\<close>:
      the second callback throws on a truthy \<^verbatim>\<open>claimedBy\<close> that is no string\<close>
  "lowerClaimants bounties =
     (if NoStringClaimant \<in> set bounties then Inl TypeError
      else Inr (map toLowerCase (concat (map claimantOf bounties))))"

definition aggregateEntries ::
  "entry list \<Rightarrow> (string, OnChainReputation) jsmap \<Rightarrow> exn + AgentProfile list" where
  \<comment> \<open>\<^verbatim>\<open>aggregateAgents(bounties, onChain)\<close> on the entries that got this far: the loop
      over the bounties skips an entry that nobody claimed and throws, at the loop over
      the tags, on a claimed entry whose tags cannot be iterated\<close>
  "aggregateEntries bounties onChain =
     (if list_ex (\<lambda>b. case b of NoIterableTags a \<Rightarrow> a \<noteq> [] | _ \<Rightarrow> False) bounties
      then Inl TypeError
      else Inr (aggregateAgents
                  (concat (map (\<lambda>b. case b of Shaped x \<Rightarrow> [x] | _ \<Rightarrow> []) bounties)) onChain))"

definition getAgents ::
  "World \<Rightarrow> Schedule \<Rightarrow> int \<Rightarrow> int \<Rightarrow> Cache
     \<Rightarrow> (exn + AgentProfile list) \<times> Cache \<times> request list" where
  \<comment> \<open>\<open>now\<close> is the clock at the call, \<open>later\<close> the clock when the aggregation is computed;
      the result is the profiles or the exception thrown, the cache afterwards and the
      requests issued\<close>
  "getAgents w sch now later c =
     (case (if now - cacheTime c < CACHE_TTL then cachedAgents c else None) of
        Some agents \<Rightarrow> (Inr agents, c, [])
      | None \<Rightarrow>
          (case filterTitled (bountiesRes w) of
             Inl e \<Rightarrow> (Inl e, c, FetchBounties # enumRequests w)
           | Inr bounties \<Rightarrow>
               (case lowerClaimants bounties of
                  Inl e \<Rightarrow> (Inl e, c, FetchBounties # enumRequests w)
                | Inr lowered \<Rightarrow>
                    let onChain0 = (case fetchAllOnChainAgents w sch of Inr m \<Rightarrow> m | Inl e \<Rightarrow> []);
                        uniqueAddresses = Set_of lowered;
                        missing = filter (\<lambda>addr. \<not> Map_has onChain0 addr) uniqueAddresses;
                        onChain = fold (backfillStep w) (backfillOrder sch missing) onChain0;
                        reqs = FetchBounties # enumRequests w @ concat (map reputationRequests missing)
                    in (case aggregateEntries bounties onChain of
                          Inl e \<Rightarrow> (Inl e, c, reqs)
                        | Inr agents \<Rightarrow>
                            (Inr agents, \<lparr> cachedAgents = Some agents, cacheTime = later \<rparr>, reqs)))))"



section \<open>Notions used to state the properties\<close>

definition claimKey :: "Bounty \<Rightarrow> string option" where
  \<comment> \<open>the key a bounty is filed under: its non-empty claimant, lower-cased\<close>
  "claimKey b = map_option toLowerCase (truthy_str (claimedBy b))"

definition claimAddr :: "Bounty \<Rightarrow> string" where
  "claimAddr b = (case truthy_str (claimedBy b) of Some a \<Rightarrow> a | None \<Rightarrow> [])"

definition claimants :: "Bounty list \<Rightarrow> string list" where
  \<comment> \<open>the non-empty \<^verbatim>\<open>claimedBy\<close> addresses of a bounty list\<close>
  "claimants B = concat (map (\<lambda>b. case truthy_str (claimedBy b) of Some a \<Rightarrow> [a] | None \<Rightarrow> []) B)"

definition bountiesOf :: "string \<Rightarrow> Bounty list \<Rightarrow> Bounty list" where
  \<comment> \<open>the bounties of the profile with key \<open>k\<close>, in list order\<close>
  "bountiesOf k B = filter (\<lambda>b. claimKey b = Some k) B"

definition completedOf :: "string \<Rightarrow> Bounty list \<Rightarrow> Bounty list" where
  "completedOf k B = filter (\<lambda>b. status_b b = ''completed'') (bountiesOf k B)"

definition seedFor ::
  "(string, OnChainReputation) jsmap \<Rightarrow> string \<Rightarrow> Bounty list \<Rightarrow> AgentProfile option" where
  "seedFor M k bs =
     (case bs of [] \<Rightarrow> None | b # _ \<Rightarrow> Some (seedProfile (claimAddr b) (Map_get M k)))"

definition js_sum :: "jsnum list \<Rightarrow> jsnum" where
  \<comment> \<open>the sum of a list of numbers, added up from 0 in list order\<close>
  "js_sum xs = foldl js_add (Fin 0) xs"

definition earnings :: "string \<Rightarrow> Bounty list \<Rightarrow> jsnum" where
  "earnings k B = js_sum (map rewardOf (completedOf k B))"

definition absentAmount :: "Payment \<Rightarrow> jsnum" where
  \<comment> \<open>\<^verbatim>\<open>grossAmount\<close>, or \<^verbatim>\<open>grossReward\<close> when \<^verbatim>\<open>grossAmount\<close> is absent, else 0\<close>
  "absentAmount pay =
     (case grossAmount pay of
        Some s \<Rightarrow> StringToNumber s
      | None \<Rightarrow> (case grossReward pay of Some s \<Rightarrow> StringToNumber s | None \<Rightarrow> Fin 0))"

definition absentEarnings :: "string \<Rightarrow> Bounty list \<Rightarrow> jsnum" where
  "absentEarnings k B =
     js_sum (map (\<lambda>b. case payment b of
                         None \<Rightarrow> Fin 0
                       | Some pay \<Rightarrow> js_div (absentAmount pay) (Fin 1000000))
               (completedOf k B))"

definition roundedPercent :: "nat \<Rightarrow> nat \<Rightarrow> jsnum" where
  \<comment> \<open>0 when nothing is claimed, else \<open>100 * completed / claimed\<close> rounded to the nearest integer\<close>
  "roundedPercent completed claimed =
     (if claimed = 0 then Fin 0
      else Fin (of_int \<lfloor>100 * of_nat completed / of_nat claimed + 1 / 2 :: rat\<rfloor>))"

definition same_address :: "string \<Rightarrow> string \<Rightarrow> bool" where
  "same_address x y = (toLowerCase x = toLowerCase y)"

definition occurrences :: "string \<Rightarrow> AgentProfile list \<Rightarrow> nat" where
  "occurrences x ps = length (filter (\<lambda>p. same_address (address p) x) ps)"

definition keyed_by_address :: "(string, OnChainReputation) jsmap \<Rightarrow> bool" where
  \<comment> \<open>every entry stands under the lower-cased address it records\<close>
  "keyed_by_address M = (\<forall>e \<in> set M. fst e = toLowerCase (address_oc (snd e)))"

definition numeric :: "jsnum \<Rightarrow> bool" where
  "numeric x = (x \<noteq> NaN \<and> on_grid x)"

definition ranked :: "AgentProfile \<Rightarrow> bool" where
  "ranked p = (numeric (onChainReputation p) \<and> numeric (totalEarnings p))"

definition behind :: "AgentProfile \<Rightarrow> AgentProfile \<Rightarrow> bool" where
  \<comment> \<open>\<open>behind a b\<close>: the sort key of \<open>a\<close> is strictly below that of \<open>b\<close>\<close>
  "behind a b =
     (js_lt (onChainReputation a) (onChainReputation b) \<or>
      (onChainReputation a = onChainReputation b \<and> js_lt (totalEarnings a) (totalEarnings b)))"

definition in_order :: "AgentProfile \<Rightarrow> AgentProfile \<Rightarrow> bool" where
  \<comment> \<open>what the sort promises of a profile \<open>a\<close> that precedes a profile \<open>b\<close>\<close>
  "in_order a b =
     (\<not> js_gt (onChainReputation b) (onChainReputation a) \<and>
      (onChainReputation a = onChainReputation b \<longrightarrow> js_ge (totalEarnings a) (totalEarnings b)))"

definition permutes :: "('a list \<Rightarrow> 'a list) \<Rightarrow> bool" where
  \<comment> \<open>a finishing order: every task that was started finishes once\<close>
  "permutes f = (\<forall>xs. distinct xs \<longrightarrow> distinct (f xs) \<and> set (f xs) = set xs)"

subsection \<open>Example inputs\<close>

definition ex_bounty :: Bounty where
  "ex_bounty =
     \<lparr> id_b = ''1'', title_b = ''Fix bug'', description = [], status_b = ''completed'',
       reward_b = [], rewardFormatted = [], tags_b = Some [''rust''],
       claimedBy = Some ''0xABC'', createdAt = None, completedAt = None,
       payment = Some \<lparr> grossAmount = Some ''5000000'', grossReward = None \<rparr> \<rparr>"

definition ex_claimed :: Bounty where
  "ex_claimed = ex_bounty\<lparr> status_b := ''claimed'' \<rparr>"

definition ex_unpaid :: Bounty where
  "ex_unpaid = ex_bounty\<lparr> payment := None \<rparr>"

definition ex_empty_amount :: Bounty where
  "ex_empty_amount =
     ex_bounty\<lparr> payment := Some \<lparr> grossAmount = Some [], grossReward = Some ''5000000'' \<rparr> \<rparr>"

definition ex_garbled :: Bounty where
  "ex_garbled =
     ex_bounty\<lparr> id_b := ''2'', claimedBy := Some ''0xDEF'',
       payment := Some \<lparr> grossAmount = Some ''abc'', grossReward = None \<rparr> \<rparr>"

definition ex_forty :: "Bounty list" where
  \<comment> \<open>forty bounties of one claimant, 23 of them completed\<close>
  "ex_forty = replicate 23 ex_unpaid @ replicate 17 ex_claimed"

definition ex_onChain :: "(string, OnChainReputation) jsmap" where
  "ex_onChain = [(''0xdef'', \<lparr> address_oc = ''0xDEF'', reputationScore = Fin 42, feedback = [] \<rparr>)]"

definition ex_upper_key :: "(string, OnChainReputation) jsmap" where
  "ex_upper_key = [(''0xABC'', \<lparr> address_oc = ''0xABC'', reputationScore = Fin 1, feedback = [] \<rparr>)]"

definition ex_dead_world :: World where
  \<comment> \<open>every request fails\<close>
  "ex_dead_world =
     \<lparr> getReputation = (\<lambda>a. Rejected), getFeedback = (\<lambda>a. Rejected), getAgentCount = Rejected,
       getAgentByIndex = (\<lambda>i. Rejected), bountiesRes = Rejected \<rparr>"

definition ex_world :: World where
  \<comment> \<open>three registered agents, the read of the second one fails\<close>
  "ex_world =
     \<lparr> getReputation = (\<lambda>a. Fulfilled 42), getFeedback = (\<lambda>a. Fulfilled JOther),
       getAgentCount = Fulfilled 3,
       getAgentByIndex = (\<lambda>i. if i = 0 then Fulfilled ''0xDEF''
                               else if i = 2 then Fulfilled ''0xAbC'' else Rejected),
       bountiesRes = Fulfilled (JArray [Shaped ex_bounty]) \<rparr>"





definition ex_other_address :: "(string, OnChainReputation) jsmap" where
  "ex_other_address =
     [(''0xabc'', \<lparr> address_oc = ''0xDEF'', reputationScore = Fin 1, feedback = [] \<rparr>)]"

definition ex_schedule :: Schedule where
  "ex_schedule = \<lparr> enumOrder = rev, backfillOrder = rev \<rparr>"

definition ex_profile :: AgentProfile where
  "ex_profile =
     \<lparr> address = ''0xABC'', onChainReputation = Fin 0, totalEarnings = Fin 0,
       bountiesCompleted = 0, bountiesClaimed = 1, successRate = Fin 0,
       tags = [(''rust'', 1)], recentFeedback = [],
       history = [\<lparr> bountyId = ''1'', title = ''Fix bug'', reward = Fin 0,
                    status = ''claimed'', date = [] \<rparr>] \<rparr>"

definition ex_cache :: Cache where
  "ex_cache = \<lparr> cachedAgents = Some [ex_profile], cacheTime = 1000 \<rparr>"

section \<open>Facts about the number model\<close>

lemma powi_mono: "a \<le> b \<Longrightarrow> (2::rat) powi a \<le> 2 powi b"
  by (rule power_int_increasing) simp_all

lemma powi_pos: "0 < (2::rat) powi a"
  by (rule zero_less_power_int) simp

lemma powi_succ: "(2::rat) powi (a + 1) = 2 * 2 powi a"
  by (simp add: power_int_add)

lemma ilog2_lower: assumes "0 < x" shows "2 powi ilog2 x \<le> x"
proof (cases "1 \<le> x")
  case True
  then have f: "0 < \<lfloor>x\<rfloor>" by linarith 
  from bitlen_bounds[OF f] have "2 ^ nat (bitlen \<lfloor>x\<rfloor> - 1) \<le> \<lfloor>x\<rfloor>" by simp
  then have "(of_int (2 ^ nat (bitlen \<lfloor>x\<rfloor> - 1)) :: rat) \<le> of_int \<lfloor>x\<rfloor>"
    by (simp only: of_int_le_iff)
  then have "(2::rat) ^ nat (bitlen \<lfloor>x\<rfloor> - 1) \<le> x" by (simp add: le_floor_iff)
  moreover have "0 \<le> bitlen \<lfloor>x\<rfloor> - 1" using f by (simp add: bitlen_alt_def)
  ultimately show ?thesis using True by (simp add: ilog2_def power_int_def)
next
  case False
  define y where "y = 1 / x"
  have y: "1 < y" using False assms by (simp add: y_def)
  then have c: "0 < \<lceil>y\<rceil> - 1" by linarith
  from bitlen_bounds[OF c] have "\<lceil>y\<rceil> - 1 < 2 ^ nat (bitlen (\<lceil>y\<rceil> - 1))" by simp
  then have "\<lceil>y\<rceil> \<le> 2 ^ nat (bitlen (\<lceil>y\<rceil> - 1))" by simp
  then have "(of_int \<lceil>y\<rceil> :: rat) \<le> of_int (2 ^ nat (bitlen (\<lceil>y\<rceil> - 1)))"
    by (simp only: of_int_le_iff)
  then have "(of_int \<lceil>y\<rceil> :: rat) \<le> 2 ^ nat (bitlen (\<lceil>y\<rceil> - 1))"
    by simp
  then have "y \<le> 2 ^ nat (bitlen (\<lceil>y\<rceil> - 1))"
    using le_of_int_ceiling[of y] by (rule order_trans[rotated])
  then have "1 / 2 ^ nat (bitlen (\<lceil>y\<rceil> - 1)) \<le> x"
    using assms by (simp add: y_def field_simps)
  moreover have "(2::rat) powi (- bitlen (\<lceil>y\<rceil> - 1)) = 1 / 2 ^ nat (bitlen (\<lceil>y\<rceil> - 1))"
    using bitlen_nonneg[of "\<lceil>y\<rceil> - 1"]
    by (simp add: power_int_minus power_int_nonneg_exp field_simps)
  ultimately show ?thesis using False
    by (simp add: ilog2_def y_def)
qed

lemma ilog2_upper: assumes "0 < x" shows "x < 2 powi (ilog2 x + 1)"
proof (cases "1 \<le> x")
  case True
  then have f: "0 < \<lfloor>x\<rfloor>" by linarith 
  from bitlen_bounds[OF f] have "\<lfloor>x\<rfloor> + 1 \<le> 2 ^ nat (bitlen \<lfloor>x\<rfloor>)" by simp
  then have "(of_int (\<lfloor>x\<rfloor> + 1) :: rat) \<le> of_int (2 ^ nat (bitlen \<lfloor>x\<rfloor>))"
    by (simp only: of_int_le_iff)
  moreover have "x < of_int (\<lfloor>x\<rfloor> + 1)" by linarith
  ultimately have "x < 2 ^ nat (bitlen \<lfloor>x\<rfloor>)" by simp
  moreover have "0 \<le> bitlen \<lfloor>x\<rfloor>" by (rule bitlen_nonneg)
  ultimately show ?thesis using True by (simp add: ilog2_def power_int_def)
next
  case False
  define y where "y = 1 / x"
  define n where "n = bitlen (\<lceil>y\<rceil> - 1)"
  have y: "1 < y" using False assms by (simp add: y_def)
  then have c: "0 < \<lceil>y\<rceil> - 1" by linarith
  then have n: "1 \<le> n" by (simp add: n_def bitlen_alt_def)
  from bitlen_bounds[OF c] have "2 ^ nat (n - 1) \<le> \<lceil>y\<rceil> - 1" by (simp add: n_def)
  then have "(of_int (2 ^ nat (n - 1)) :: rat) \<le> of_int (\<lceil>y\<rceil> - 1)"
    by (simp only: of_int_le_iff)
  moreover have "of_int (\<lceil>y\<rceil> - 1) < y" by linarith
  ultimately have "2 ^ nat (n - 1) < y" by simp
  then have "x < 1 / 2 ^ nat (n - 1)"
    using assms by (simp add: y_def field_simps)
  also have "1 / 2 ^ nat (n - 1) = (2::rat) powi (- n + 1)"
    using n by (simp add: power_int_def field_simps)
  finally show ?thesis using False by (simp add: ilog2_def y_def n_def)
qed

lemma ilog2_unique:
  assumes "0 < x" "2 powi e \<le> x" "x < 2 powi (e + 1)"
  shows "ilog2 x = e"
proof (rule ccontr)
  assume ne: "ilog2 x \<noteq> e"
  show False
  proof (cases "ilog2 x < e")
    case True
    then have "(2::rat) powi (ilog2 x + 1) \<le> 2 powi e" by (intro powi_mono) simp
    with ilog2_upper[OF assms(1)] assms(2) show False by simp
  next
    case False
    with ne have "(2::rat) powi (e + 1) \<le> 2 powi ilog2 x" by (intro powi_mono) simp
    with ilog2_lower[OF assms(1)] assms(3) show False by simp
  qed
qed

lemma rne_lower: assumes "of_int k \<le> x" shows "k \<le> rne x"
proof -
  from assms have "k \<le> \<lfloor>x\<rfloor>" by (simp add: le_floor_iff)
  then show ?thesis by (auto simp: rne_def Let_def)
qed

lemma rne_upper: assumes "x \<le> of_int k" shows "rne x \<le> k"
proof (cases "x = of_int k")
  case True
  then show ?thesis by (simp add: rne_def)
next
  case False
  with assms have "x < of_int k" by simp
  then have "\<lfloor>x\<rfloor> < k" by (simp add: floor_less_iff)
  then show ?thesis by (auto simp: rne_def Let_def)
qed

lemma rne_of_int: "rne (of_int k) = k"
  by (simp add: rne_def)

lemma powi_diff52: "(2::rat) powi (e + 1) = 2 ^ 53 * 2 powi (e - 52)"
proof -
  have "e + 1 = 53 + (e - 52)" by simp
  then have "(2::rat) powi (e + 1) = 2 powi (53 + (e - 52))" by (rule arg_cong)
  also have "\<dots> = 2 powi 53 * 2 powi (e - 52)" by (rule power_int_add) simp
  also have "(2::rat) powi 53 = 2 ^ 53" by simp
  finally show ?thesis .
qed

lemma rnd_pos:
  assumes "0 < x"
  shows "rnd x = (let u = quantum x; r = of_int (rne (x / u)) * u in
                  if 2 powi 1024 \<le> r then PInf else Fin r)"
  using assms by (simp add: rnd_def Let_def)

lemma rnd_normal:
  assumes "0 < x" "2 powi e \<le> x" "x < 2 powi (e + 1)" "- 1022 \<le> e" "e \<le> 1022"
  shows "rnd x = Fin (of_int (rne (x / 2 powi (e - 52))) * 2 powi (e - 52))"
proof -
  define u :: rat where "u = 2 powi (e - 52)"
  have u: "0 < u" by (simp add: u_def powi_pos)
  have q: "quantum x = u"
    using ilog2_unique[OF assms(1-3)] assms(4) by (simp add: quantum_def u_def max_def)
  have "x / u < 2 ^ 53"
    using assms(3) u unfolding powi_diff52 u_def[symmetric] by (simp add: field_simps)
  then have "x / u \<le> of_int (2 ^ 53)" by simp
  then have "rne (x / u) \<le> 2 ^ 53" by (rule rne_upper)
  then have "(of_int (rne (x / u)) :: rat) \<le> of_int (2 ^ 53)" by (simp only: of_int_le_iff)
  then have "of_int (rne (x / u)) * u \<le> 2 ^ 53 * u"
    using u by simp
  also have "\<dots> = 2 powi (e + 1)" by (simp add: powi_diff52 u_def)
  also have "\<dots> \<le> 2 powi 1023" using assms(5) by (intro powi_mono) simp
  also have "\<dots> < (2::rat) powi 1024" by simp
  finally have "\<not> 2 powi 1024 \<le> of_int (rne (x / u)) * u" by simp
  then show ?thesis
    using assms(1) q by (simp add: rnd_pos Let_def u_def)
qed

lemma rnd_bounded:
  assumes "0 \<le> x" "x \<le> of_int B" "B < 2 ^ 53"
  shows "\<exists>r. rnd x = Fin r \<and> 0 \<le> r \<and> r \<le> of_int B"
proof (cases "x = 0")
  case True
  with assms show ?thesis by (simp add: rnd_def)
next
  case False
  with assms have x: "0 < x" by simp
  define j where "j = max (ilog2 x) (- 1022) - 52"
  define u :: rat where "u = 2 powi j"
  have u: "0 < u" by (simp add: u_def powi_pos)
  have q: "quantum x = u" by (simp add: quantum_def u_def j_def)
  have "2 powi ilog2 x \<le> x" by (rule ilog2_lower[OF x])
  also have "x \<le> of_int B" by fact
  also have "(of_int B :: rat) < of_int (2 ^ 53)" using assms(3) by (simp only: of_int_less_iff)
  finally have "(2::rat) powi ilog2 x < 2 powi 53" by simp
  then have "ilog2 x < 53"
    by (metis linorder_not_le powi_mono)
  then have j: "j \<le> 0" by (simp add: j_def)
  define K where "K = B * 2 ^ nat (- j)"
  have "u = 1 / 2 ^ nat (- j)"
    using j unfolding u_def by (simp add: power_int_def field_simps)
  then have K: "of_int B / u = of_int K" by (simp add: K_def)
  have "x / u \<le> of_int B / u" using assms(2) u by (simp add: divide_right_mono)
  then have "rne (x / u) \<le> K" unfolding K by (rule rne_upper)
  then have "(of_int (rne (x / u)) :: rat) \<le> of_int K" by (simp only: of_int_le_iff)
  then have "of_int (rne (x / u)) * u \<le> of_int K * u" using u by simp
  also have "of_int K * u = of_int B" using K u by (simp add: field_simps)
  finally have hi: "of_int (rne (x / u)) * u \<le> of_int B" .
  have "of_int 0 \<le> x / u" using x u by simp
  then have "0 \<le> rne (x / u)" by (rule rne_lower)
  then have lo: "0 \<le> of_int (rne (x / u)) * u" using u by simp
  have "(of_int B :: rat) < of_int (2 ^ 53)" using assms(3) by (simp only: of_int_less_iff)
  also have "\<dots> < (2::rat) powi 1024" by simp
  finally have "\<not> 2 powi 1024 \<le> of_int (rne (x / u)) * u" using hi by simp
  then show ?thesis using x q hi lo by (simp add: rnd_pos Let_def)
qed

lemma on_grid_Fin: "on_grid (Fin a) \<longleftrightarrow> (\<exists>k. a * 2 ^ 1074 = of_int k)"
  by (auto simp: on_grid_def)

lemma quantum_grid: "\<exists>n. quantum a = 2 ^ n / 2 ^ 1074"
proof -
  define j where "j = max (ilog2 a) (- 1022) - 52"
  define n where "n = nat (j + 1074)"
  have "- 1074 \<le> j" by (simp add: j_def)
  then have "j = int n + (- 1074)" by (simp add: n_def)
  then have "(2::rat) powi j = 2 powi (int n + (- 1074))" by (rule arg_cong)
  also have "\<dots> = 2 powi int n * 2 powi (- 1074)" by (rule power_int_add) simp
  also have "(2::rat) powi int n = 2 ^ n" by (rule power_int_of_nat)
  also have "(2::rat) powi (- 1074) = 1 / 2 ^ 1074" by (simp add: power_int_minus field_simps)
  finally have "(2::rat) powi j = 2 ^ n / 2 ^ 1074" by simp
  then show ?thesis unfolding quantum_def j_def[symmetric] by blast
qed

lemma rnd_on_grid: "on_grid (rnd x)"
proof (cases "rnd x")
  case (Fin r)
  obtain n where n: "quantum \<bar>x\<bar> = 2 ^ n / 2 ^ 1074" using quantum_grid by blast
  define k where "k = rne (\<bar>x\<bar> / quantum \<bar>x\<bar>)"
  from Fin have "r = 0 \<or> r = sgn x * (of_int k * quantum \<bar>x\<bar>)"
    by (auto simp: rnd_def Let_def k_def split: if_splits)
  then have "r * 2 ^ 1074 = of_int 0 \<or> r * 2 ^ 1074 = of_int (k * 2 ^ n) \<or>
      r * 2 ^ 1074 = of_int (- (k * 2 ^ n))"
    unfolding n by (cases "x < 0"; cases "x = 0") (auto simp: sgn_if)
  then show ?thesis unfolding Fin on_grid_Fin by blast
qed (simp_all add: on_grid_def)

lemma rnd_not_NaN: "rnd x \<noteq> NaN"
  by (simp add: rnd_def Let_def)

lemma rnd_sign_pos:
  assumes "1 / 2 ^ 1074 \<le> x"
  shows "js_sign (rnd x) = 1"
proof -
  have x: "0 < x" using assms by (rule less_le_trans[rotated]) simp
  define u where "u = quantum x"
  have u: "0 < u" by (simp add: u_def quantum_def powi_pos)
  have "u \<le> x"
  proof (cases "- 1022 \<le> ilog2 x")
    case True
    then have "u = 2 powi (ilog2 x - 52)" by (simp add: u_def quantum_def max_def)
    also have "\<dots> \<le> 2 powi ilog2 x" by (intro powi_mono) simp
    also have "\<dots> \<le> x" by (rule ilog2_lower[OF x])
    finally show ?thesis .
  next
    case False
    then have "u = 2 powi (- 1074)" by (simp add: u_def quantum_def max_def)
    also have "\<dots> = 1 / 2 ^ 1074" by (simp add: power_int_minus field_simps)
    finally show ?thesis using assms by simp
  qed
  then have "of_int 1 \<le> x / u" using u by simp
  then have "1 \<le> rne (x / u)" by (rule rne_lower)
  then have "0 < of_int (rne (x / u)) * u" using u by simp
  then show ?thesis using x by (simp add: rnd_pos Let_def u_def)
qed

lemma rnd_minus: "rnd (- x) = js_neg (rnd x)"
  by (simp add: rnd_def Let_def sgn_if)

lemma js_sign_neg: "js_sign (js_neg x) = - js_sign x"
  by (cases x) (simp_all add: sgn_if)

lemma rnd_sign:
  assumes "\<exists>k. x * 2 ^ 1074 = of_int k"
  shows "js_sign (rnd x) = sgn x"
proof -
  from assms obtain k :: int where k: "x * 2 ^ 1074 = of_int k" ..
  then have xk: "x = of_int k / 2 ^ 1074" by (simp add: field_simps)
  consider "k = 0" | "1 \<le> k" | "k \<le> - 1" by linarith
  then show ?thesis
  proof cases
    case 1
    then show ?thesis by (simp add: xk rnd_def)
  next
    case 2
    then have "(of_int 1 :: rat) \<le> of_int k" by (simp only: of_int_le_iff)
    then have "1 / 2 ^ 1074 \<le> x" by (simp add: xk divide_right_mono)
    moreover from this have "0 < x" by (rule less_le_trans[rotated]) simp
    ultimately show ?thesis by (simp add: rnd_sign_pos)
  next
    case 3
    then have "(of_int 1 :: rat) \<le> of_int (- k)" by (simp only: of_int_le_iff)
    then have "1 / 2 ^ 1074 \<le> - x" by (simp add: xk divide_right_mono)
    moreover from this have "0 < - x" by (rule less_le_trans[rotated]) simp
    ultimately have "js_sign (rnd (- x)) = 1" "x < 0" by (simp_all add: rnd_sign_pos)
    then show ?thesis by (simp add: rnd_minus js_sign_neg)
  qed
qed


lemma rnd_zero: "rnd 0 = Fin 0"
  by (simp add: rnd_def)

lemma rnd_int_pos:
  assumes "0 < k" "k < 2 ^ 53"
  shows "rnd (of_int k) = Fin (of_int k)"
proof -
  define x :: rat where "x = of_int k"
  have "(of_int 1 :: rat) \<le> of_int k" using assms(1) by (simp only: of_int_le_iff)
  then have x1: "1 \<le> x" by (simp add: x_def)
  then have x: "0 < x" by simp
  define j where "j = max (ilog2 x) (- 1022) - 52"
  define u :: rat where "u = 2 powi j"
  have u: "0 < u" by (simp add: u_def powi_pos)
  have q: "quantum x = u" by (simp add: quantum_def u_def j_def)
  have "2 powi ilog2 x \<le> x" by (rule ilog2_lower[OF x])
  also have "x < of_int (2 ^ 53)" unfolding x_def using assms(2) by (simp only: of_int_less_iff)
  finally have "(2::rat) powi ilog2 x < 2 powi 53" by simp
  then have "ilog2 x < 53" by (metis linorder_not_le powi_mono)
  then have j: "j \<le> 0" by (simp add: j_def)
  have uu: "u = 1 / 2 ^ nat (- j)"
    using j unfolding u_def by (simp add: power_int_def field_simps)
  then have "x / u = of_int (k * 2 ^ nat (- j))" by (simp add: x_def)
  then have "rne (x / u) = k * 2 ^ nat (- j)" by (simp only: rne_of_int)
  then have r: "of_int (rne (x / u)) * u = x" by (simp add: uu x_def)
  have "x < of_int (2 ^ 53)" unfolding x_def using assms(2) by (simp only: of_int_less_iff)
  also have "\<dots> < (2::rat) powi 1024" by simp
  finally have "\<not> 2 powi 1024 \<le> of_int (rne (x / u)) * u" unfolding r by simp
  then show ?thesis using x q r unfolding x_def[symmetric] by (simp add: rnd_pos Let_def)
qed

lemma rnd_numeral: "numeral n < (2::int) ^ 53 \<Longrightarrow> rnd (numeral n) = Fin (numeral n)"
  using rnd_int_pos[of "numeral n"] by simp

lemma rnd_one: "rnd 1 = Fin 1"
  using rnd_int_pos[of 1] by simp

lemma Number_of_nat_exact: "n < 2 ^ 53 \<Longrightarrow> Number_of_nat n = Fin (of_nat n)"
proof (cases "n = 0")
  case True
  then show ?thesis by (simp add: Number_of_nat_def rnd_zero)
next
  case False
  assume "n < 2 ^ 53"
  then have "int n < 2 ^ 53" by (metis of_nat_less_iff of_nat_numeral of_nat_power)
  with False show ?thesis using rnd_int_pos[of "int n"] by (simp add: Number_of_nat_def)
qed

lemma floor_rat_numeral:
  "\<lfloor>numeral a / numeral b :: rat\<rfloor> = numeral a div numeral b"
  "\<lfloor>1 / numeral b :: rat\<rfloor> = 1 div numeral b"
  using floor_divide_of_int_eq[of "numeral a" "numeral b", where ?'a = rat]
    floor_divide_of_int_eq[of 1 "numeral b", where ?'a = rat] by simp_all

lemmas js_eval = rnd_zero rnd_one rnd_numeral floor_rat_numeral
  StringToNumber_def trim_def is_ws_def StrUnsignedDecimalLiteral_def parse_mantissa_def
  parse_exponent_def digits_value_def digit_val_def radix_of_def truthy_str_def
  toLowerCase_def lower_char_def inf_of_sign_def js_sub_def js_or_def truthy_def js_gt_def js_ge_def

lemmas agg_eval = aggregateAgents_def aggregateMap_def processBounty_def applyBounty_def
  seedProfile_def onChainProfile_def addOnChain_def setRate_def rateOf_def rewardOf_def amountOf_def
  countTag_def compareAgents_def js_sort_def Map_values_def Map_get_def Map_has_def slice_last_def
  Number_of_nat_def Let_def


section \<open>Facts about the sort\<close>

lemma truthy_sign: "z \<noteq> NaN \<Longrightarrow> truthy z \<longleftrightarrow> js_sign z \<noteq> 0"
  by (cases z) (simp_all add: truthy_def sgn_if)

lemma gt0_sign: "js_gt z (Fin 0) \<longleftrightarrow> 0 < js_sign z"
  by (cases z) (simp_all add: js_gt_def sgn_if)

lemma js_sub_Fin_sign:
  assumes "on_grid (Fin a)" "on_grid (Fin b)"
  shows "js_sign (js_sub (Fin b) (Fin a)) = sgn (b - a)"
proof -
  from assms obtain k l :: int where "a * 2 ^ 1074 = of_int k" "b * 2 ^ 1074 = of_int l"
    unfolding on_grid_Fin by blast
  then have "(b - a) * 2 ^ 1074 = of_int (l - k)" by (simp add: algebra_simps)
  then have "js_sign (rnd (b - a)) = sgn (b - a)" by (intro rnd_sign) blast
  then show ?thesis by (simp add: js_sub_def)
qed

lemma js_sub_truthy:
  assumes "x \<noteq> NaN" "y \<noteq> NaN" "on_grid x" "on_grid y"
  shows "truthy (js_sub y x) \<longleftrightarrow> x \<noteq> y"
proof (cases x; cases y)
  fix a b assume xy: "x = Fin a" "y = Fin b"
  with assms have "js_sign (js_sub y x) = sgn (b - a)" by (simp add: js_sub_Fin_sign)
  moreover have "js_sub y x \<noteq> NaN" using xy by (simp add: js_sub_def rnd_not_NaN)
  ultimately show ?thesis using xy by (simp add: truthy_sign sgn_if)
qed (use assms in \<open>simp_all add: js_sub_def truthy_def\<close>)

lemma js_sub_gt0:
  assumes "x \<noteq> NaN" "y \<noteq> NaN" "on_grid x" "on_grid y"
  shows "js_gt (js_sub y x) (Fin 0) \<longleftrightarrow> js_lt x y"
proof (cases x; cases y)
  fix a b assume xy: "x = Fin a" "y = Fin b"
  with assms have "js_sign (js_sub y x) = sgn (b - a)" by (simp add: js_sub_Fin_sign)
  then show ?thesis using xy by (simp add: gt0_sign sgn_if)
qed (use assms in \<open>simp_all add: js_sub_def js_gt_def\<close>)

lemma compareAgents_gt0:
  assumes "ranked a" "ranked b"
  shows "js_gt (compareAgents a b) (Fin 0) \<longleftrightarrow> behind a b"
proof (cases "onChainReputation a = onChainReputation b")
  case True
  with assms have "\<not> truthy (js_sub (onChainReputation b) (onChainReputation a))"
    by (simp add: js_sub_truthy ranked_def numeric_def)
  moreover have "\<not> js_lt (onChainReputation b) (onChainReputation b)"
    by (cases "onChainReputation b") simp_all
  ultimately show ?thesis using assms True
    by (simp add: compareAgents_def js_or_def behind_def js_sub_gt0 ranked_def numeric_def)
next
  case False
  with assms have "truthy (js_sub (onChainReputation b) (onChainReputation a))"
    by (simp add: js_sub_truthy ranked_def numeric_def)
  then show ?thesis using assms False
    by (simp add: compareAgents_def js_or_def behind_def js_sub_gt0 ranked_def numeric_def)
qed

lemma js_lt_trans: "js_lt x y \<Longrightarrow> js_lt y z \<Longrightarrow> js_lt x z"
  by (cases x; cases y; cases z) simp_all

lemma js_lt_irrefl: "\<not> js_lt x x"
  by (cases x) simp_all

lemma js_lt_total: "x \<noteq> NaN \<Longrightarrow> y \<noteq> NaN \<Longrightarrow> js_lt x y \<or> x = y \<or> js_lt y x"
  by (cases x; cases y) auto

lemma js_lt_asym: "js_lt x y \<Longrightarrow> \<not> js_lt y x"
  by (cases x; cases y) auto

lemma behind_asym: "behind a b \<Longrightarrow> \<not> behind b a"
  by (auto simp: behind_def dest: js_lt_asym simp: js_lt_irrefl)

lemma not_behind_trans:
  assumes "ranked a" "ranked b" "ranked c" "\<not> behind a b" "\<not> behind b c"
  shows "\<not> behind a c"
proof -
  let ?r = onChainReputation and ?t = totalEarnings
  have n: "?r a \<noteq> NaN" "?r b \<noteq> NaN" "?r c \<noteq> NaN" "?t a \<noteq> NaN" "?t b \<noteq> NaN" "?t c \<noteq> NaN"
    using assms(1-3) by (simp_all add: ranked_def numeric_def)
  from assms(4) n have ab: "js_lt (?r b) (?r a) \<or> (?r a = ?r b \<and> \<not> js_lt (?t a) (?t b))"
    using js_lt_total[of "?r a" "?r b"] by (auto simp: behind_def)
  from assms(5) n have bc: "js_lt (?r c) (?r b) \<or> (?r b = ?r c \<and> \<not> js_lt (?t b) (?t c))"
    using js_lt_total[of "?r b" "?r c"] by (auto simp: behind_def)
  show ?thesis
  proof
    assume "behind a c"
    then consider "js_lt (?r a) (?r c)" | "?r a = ?r c" "js_lt (?t a) (?t c)"
      by (auto simp: behind_def)
    then show False
    proof cases
      case 1
      with ab bc show False
        by (metis js_lt_trans js_lt_asym)
    next
      case 2
      with ab bc have "?r a = ?r b" "?r b = ?r c" "\<not> js_lt (?t a) (?t b)" "\<not> js_lt (?t b) (?t c)"
        by (metis js_lt_asym js_lt_irrefl)+
      with n 2 show False
        by (metis js_lt_total js_lt_trans js_lt_asym)
    qed
  qed
qed

lemma set_sort_insert: "set (sort_insert cmp x ys) = insert x (set ys)"
  by (induction ys) auto

lemma set_js_sort: "set (js_sort cmp xs) = set xs"
  by (induction xs) (simp_all add: js_sort_def set_sort_insert)

lemma filter_sort_insert:
  "length (filter P (sort_insert cmp x ys)) = length (filter P (x # ys))"
  by (induction ys) auto

lemma filter_js_sort: "length (filter P (js_sort cmp xs)) = length (filter P xs)"
  by (induction xs) (simp_all add: js_sort_def filter_sort_insert)

lemma sorted_sort_insert:
  assumes "sorted_wrt (\<lambda>a b. \<not> behind a b) ys" "ranked x" "\<forall>y \<in> set ys. ranked y"
  shows "sorted_wrt (\<lambda>a b. \<not> behind a b) (sort_insert compareAgents x ys)"
  using assms
proof (induction ys)
  case Nil
  then show ?case by simp
next
  case (Cons y ys)
  show ?case
  proof (cases "js_gt (compareAgents x y) (Fin 0)")
    case True
    with Cons.prems have "behind x y" by (simp add: compareAgents_gt0)
    then have "\<not> behind y x" by (rule behind_asym)
    with True Cons show ?thesis by (auto simp: set_sort_insert)
  next
    case False
    with Cons.prems have xy: "\<not> behind x y" by (simp add: compareAgents_gt0)
    have "\<not> behind x z" if "z \<in> set ys" for z
      using not_behind_trans[of x y z] xy Cons.prems that by auto
    with False xy Cons.prems show ?thesis by auto
  qed
qed

lemma sorted_js_sort:
  assumes "\<forall>x \<in> set xs. ranked x"
  shows "sorted_wrt (\<lambda>a b. \<not> behind a b) (js_sort compareAgents xs)"
  using assms
proof (induction xs)
  case Nil
  then show ?case by (simp add: js_sort_def)
next
  case (Cons x xs)
  then have "sorted_wrt (\<lambda>a b. \<not> behind a b) (js_sort compareAgents xs)" by simp
  moreover have "\<forall>y \<in> set (js_sort compareAgents xs). ranked y"
    using Cons.prems by (simp add: set_js_sort)
  ultimately have "sorted_wrt (\<lambda>a b. \<not> behind a b)
      (sort_insert compareAgents x (js_sort compareAgents xs))"
    using Cons.prems by (intro sorted_sort_insert) simp_all
  then show ?case by (simp add: js_sort_def)
qed


section \<open>Facts about the aggregation loops\<close>

lemma map_of_Map_set: "map_of (Map_set m k v) = (map_of m)(k \<mapsto> v)"
  by (induction m) (auto simp: fun_eq_iff)

lemma keys_Map_set:
  "map fst (Map_set m k v) = (if k \<in> fst ` set m then map fst m else map fst m @ [k])"
  by (induction m) auto

lemma Map_set_key_in: "k \<in> fst ` set (Map_set m k v)"
  by (induction m) auto

lemma map_of_eq_None_keys: "map_of m k = None \<longleftrightarrow> k \<notin> fst ` set m"
  by (simp add: map_of_eq_None_iff)

lemma processBounty_skip: "claimKey b = None \<Longrightarrow> processBounty M b agents = agents"
  by (simp add: processBounty_def claimKey_def split: option.splits)

lemma processBounty_lookup:
  assumes "claimKey b = Some k"
  shows "map_of (processBounty M b agents) =
     (map_of agents)(k \<mapsto> applyBounty b
        (case map_of agents k of Some a \<Rightarrow> a | None \<Rightarrow> seedProfile (claimAddr b) (Map_get M k)))"
  using assms
  by (auto simp: processBounty_def claimKey_def claimAddr_def Let_def Map_has_def Map_get_def
      map_of_Map_set fun_eq_iff split: option.splits)

lemma processBounty_keys:
  assumes "claimKey b = Some k"
  shows "map fst (processBounty M b agents) =
     (if k \<in> fst ` set agents then map fst agents else map fst agents @ [k])"
proof -
  from assms obtain addr where a: "truthy_str (claimedBy b) = Some addr" "k = toLowerCase addr"
    by (auto simp: claimKey_def)
  show ?thesis
  proof (cases "map_of agents k")
    case None
    then have "k \<notin> fst ` set agents" by (simp add: map_of_eq_None_keys)
    with None a show ?thesis
      by (simp add: processBounty_def Let_def Map_has_def Map_get_def map_of_Map_set keys_Map_set
          Map_set_key_in)
  next
    case (Some p)
    then have "k \<in> fst ` set agents" by (metis map_of_eq_None_keys option.distinct(1))
    with Some a show ?thesis
      by (simp add: processBounty_def Let_def Map_has_def Map_get_def keys_Map_set)
  qed
qed

lemma fold_processBounty_lookup:
  "map_of (fold (processBounty M) B agents) k =
     (let bs = filter (\<lambda>b. claimKey b = Some k) B in
      map_option (fold applyBounty bs)
        (case map_of agents k of Some a \<Rightarrow> Some a | None \<Rightarrow> seedFor M k bs))"
proof (induction B arbitrary: agents)
  case Nil
  show ?case by (simp add: seedFor_def split: option.splits)
next
  case (Cons b B)
  show ?case
  proof (cases "claimKey b")
    case None
    then show ?thesis by (simp add: Cons.IH processBounty_skip)
  next
    case (Some k')
    show ?thesis
    proof (cases "k' = k")
      case True
      with Some show ?thesis
        by (simp add: Cons.IH processBounty_lookup seedFor_def Let_def split: option.splits)
    next
      case False
      with Some show ?thesis
        by (simp add: Cons.IH processBounty_lookup Let_def)
    qed
  qed
qed

lemma fold_processBounty_keys:
  "fst ` set (fold (processBounty M) B agents) =
     fst ` set agents \<union> {k. \<exists>b \<in> set B. claimKey b = Some k}"
proof (induction B arbitrary: agents)
  case Nil
  show ?case by simp
next
  case (Cons b B)
  have "fst ` set (processBounty M b agents) =
      fst ` set agents \<union> {k. claimKey b = Some k}"
  proof (cases "claimKey b")
    case None
    then show ?thesis by (simp add: processBounty_skip)
  next
    case (Some k)
    have "set (map fst (processBounty M b agents)) = set (map fst agents) \<union> {k}"
      unfolding processBounty_keys[OF Some] by auto
    with Some show ?thesis by auto
  qed
  then show ?case by (auto simp: Cons.IH)
qed

lemma fold_processBounty_distinct:
  "distinct (map fst agents) \<Longrightarrow> distinct (map fst (fold (processBounty M) B agents))"
proof (induction B arbitrary: agents)
  case Nil
  then show ?case by simp
next
  case (Cons b B)
  have "distinct (map fst (processBounty M b agents))"
  proof (cases "claimKey b")
    case None
    with Cons.prems show ?thesis by (simp add: processBounty_skip)
  next
    case (Some k)
    with Cons.prems show ?thesis by (simp add: processBounty_keys)
  qed
  then show ?case by (simp add: Cons.IH)
qed

lemma addOnChain_lookup:
  "map_of (addOnChain e agents) k =
     (case map_of agents k of Some a \<Rightarrow> Some a
      | None \<Rightarrow> if fst e = k then Some (onChainProfile (snd e)) else None)"
  by (auto simp: addOnChain_def Map_has_def map_of_Map_set split: option.splits)

lemma addOnChain_keys:
  "map fst (addOnChain e agents) =
     (if fst e \<in> fst ` set agents then map fst agents else map fst agents @ [fst e])"
  by (simp add: addOnChain_def Map_has_def keys_Map_set map_of_eq_None_keys)

lemma fold_addOnChain_lookup:
  "map_of (fold addOnChain M agents) k =
     (case map_of agents k of Some a \<Rightarrow> Some a | None \<Rightarrow> map_option onChainProfile (map_of M k))"
proof (induction M arbitrary: agents)
  case Nil
  show ?case by (simp split: option.splits)
next
  case (Cons e M)
  show ?case by (cases e) (simp add: Cons.IH addOnChain_lookup split: option.splits)
qed

lemma fold_addOnChain_keys:
  "fst ` set (fold addOnChain M agents) = fst ` set agents \<union> fst ` set M"
proof (induction M arbitrary: agents)
  case Nil
  show ?case by simp
next
  case (Cons e M)
  have "set (map fst (addOnChain e agents)) = set (map fst agents) \<union> {fst e}"
    unfolding addOnChain_keys by auto
  then show ?case by (auto simp: Cons.IH)
qed

lemma fold_addOnChain_distinct:
  "distinct (map fst agents) \<Longrightarrow> distinct (map fst (fold addOnChain M agents))"
proof (induction M arbitrary: agents)
  case Nil
  then show ?case by simp
next
  case (Cons e M)
  from Cons.prems have "distinct (map fst (addOnChain e agents))"
    by (simp add: addOnChain_keys)
  then show ?case by (simp add: Cons.IH)
qed

lemma map_of_map_setRate:
  "map_of (map (\<lambda>(k, agent). (k, setRate agent)) m) k = map_option setRate (map_of m k)"
  by (induction m) auto

lemma keys_map_setRate: "map fst (map (\<lambda>(k, agent). (k, setRate agent)) m) = map fst m"
  by (induction m) auto

lemma aggregateMap_distinct: "distinct (map fst (aggregateMap B M))"
  unfolding aggregateMap_def keys_map_setRate
  by (simp add: fold_addOnChain_distinct fold_processBounty_distinct)

lemma aggregateMap_keys:
  "fst ` set (aggregateMap B M) = {k. \<exists>b \<in> set B. claimKey b = Some k} \<union> fst ` set M"
proof -
  have "fst ` set (aggregateMap B M) = set (map fst (aggregateMap B M))" by simp
  also have "\<dots> = set (map fst (fold addOnChain M (fold (processBounty M) B [])))"
    unfolding aggregateMap_def keys_map_setRate ..
  also have "\<dots> = fst ` set (fold addOnChain M (fold (processBounty M) B []))"
    by simp
  finally show ?thesis by (simp add: fold_addOnChain_keys fold_processBounty_keys)
qed

lemma aggregateMap_lookup:
  "map_of (aggregateMap B M) k =
     map_option setRate
       (case seedFor M k (bountiesOf k B) of
          Some a \<Rightarrow> Some (fold applyBounty (bountiesOf k B) a)
        | None \<Rightarrow> map_option onChainProfile (map_of M k))"
  by (simp add: aggregateMap_def map_of_map_setRate fold_addOnChain_lookup
      fold_processBounty_lookup bountiesOf_def Let_def split: option.splits)

lemma aggregateMap_entry:
  "(k, p) \<in> set (aggregateMap B M) \<longleftrightarrow> map_of (aggregateMap B M) k = Some p"
  using aggregateMap_distinct by (metis map_of_eq_Some_iff)

lemma applyBounty_fields:
  "bountiesClaimed (applyBounty b a) = bountiesClaimed a + 1"
  "length (history (applyBounty b a)) = length (history a) + 1"
  "bountiesCompleted (applyBounty b a) =
     bountiesCompleted a + (if status_b b = ''completed'' then 1 else 0)"
  "totalEarnings (applyBounty b a) =
     (if status_b b = ''completed'' then js_add (totalEarnings a) (rewardOf b) else totalEarnings a)"
  "address (applyBounty b a) = address a"
  "onChainReputation (applyBounty b a) = onChainReputation a"
  by (simp_all add: applyBounty_def Let_def)

lemma fold_applyBounty_fields:
  "bountiesClaimed (fold applyBounty bs a) = bountiesClaimed a + length bs"
  "length (history (fold applyBounty bs a)) = length (history a) + length bs"
  "bountiesCompleted (fold applyBounty bs a) =
     bountiesCompleted a + length (filter (\<lambda>b. status_b b = ''completed'') bs)"
  "totalEarnings (fold applyBounty bs a) =
     foldl js_add (totalEarnings a) (map rewardOf (filter (\<lambda>b. status_b b = ''completed'') bs))"
  "address (fold applyBounty bs a) = address a"
  "onChainReputation (fold applyBounty bs a) = onChainReputation a"
  by (induction bs arbitrary: a) (simp_all add: applyBounty_fields)

lemma setRate_fields:
  "bountiesClaimed (setRate a) = bountiesClaimed a"
  "history (setRate a) = history a"
  "bountiesCompleted (setRate a) = bountiesCompleted a"
  "totalEarnings (setRate a) = totalEarnings a"
  "address (setRate a) = address a"
  "onChainReputation (setRate a) = onChainReputation a"
  "successRate (setRate a) = rateOf (bountiesCompleted a) (bountiesClaimed a)"
  by (simp_all add: setRate_def)

lemma seedProfile_fields:
  "bountiesClaimed (seedProfile addr oc) = 0"
  "history (seedProfile addr oc) = []"
  "bountiesCompleted (seedProfile addr oc) = 0"
  "totalEarnings (seedProfile addr oc) = Fin 0"
  "address (seedProfile addr oc) = addr"
  by (simp_all add: seedProfile_def)

lemma onChainProfile_fields:
  "bountiesClaimed (onChainProfile oc) = 0"
  "history (onChainProfile oc) = []"
  "bountiesCompleted (onChainProfile oc) = 0"
  "totalEarnings (onChainProfile oc) = Fin 0"
  "address (onChainProfile oc) = address_oc oc"
  "onChainReputation (onChainProfile oc) = reputationScore oc"
  by (simp_all add: onChainProfile_def)

text \<open>What the entry of a key holds when the loops are done.\<close>

lemma aggregateMap_entry_cases:
  assumes "(k, p) \<in> set (aggregateMap B M)"
  obtains (claimed) b bs where "bountiesOf k B = b # bs"
      "p = setRate (fold applyBounty (b # bs) (seedProfile (claimAddr b) (Map_get M k)))"
    | (onChain) oc where "bountiesOf k B = []" "map_of M k = Some oc"
      "p = setRate (onChainProfile oc)"
proof -
  from assms have "map_of (aggregateMap B M) k = Some p" by (simp add: aggregateMap_entry)
  then show thesis
    unfolding aggregateMap_lookup
    by (cases "bountiesOf k B") (auto simp: seedFor_def intro: claimed onChain)
qed

lemma aggregateMap_counters:
  assumes "(k, p) \<in> set (aggregateMap B M)"
  shows "bountiesClaimed p = length (bountiesOf k B)"
    and "length (history p) = length (bountiesOf k B)"
    and "bountiesCompleted p = length (completedOf k B)"
    and "totalEarnings p = earnings k B"
    and "successRate p = rateOf (bountiesCompleted p) (bountiesClaimed p)"
  using assms
  by (cases rule: aggregateMap_entry_cases;
      simp add: setRate_fields fold_applyBounty_fields applyBounty_fields seedProfile_fields
        onChainProfile_fields completedOf_def earnings_def js_sum_def)+

lemma aggregateAgents_set:
  "set (aggregateAgents B M) = snd ` set (aggregateMap B M)"
  by (simp add: aggregateAgents_def set_js_sort Map_values_def)


section \<open>The example inputs, evaluated\<close>

lemmas ex_defs = ex_bounty_def ex_claimed_def ex_unpaid_def ex_empty_amount_def ex_garbled_def
  ex_onChain_def ex_upper_key_def ex_profile_def

lemma aggregateMap_ex:
  "aggregateMap [ex_claimed] ex_onChain =
     [(''0xabc'', ex_profile),
      (''0xdef'', \<lparr> address = ''0xDEF'', onChainReputation = Fin 42, totalEarnings = Fin 0,
          bountiesCompleted = 0, bountiesClaimed = 0, successRate = Fin 0, tags = [],
          recentFeedback = [], history = [] \<rparr>)]"
  by (simp add: ex_defs agg_eval js_eval)

lemma aggregateAgents_ex:
  "aggregateAgents [ex_claimed] ex_onChain =
     [\<lparr> address = ''0xDEF'', onChainReputation = Fin 42, totalEarnings = Fin 0,
          bountiesCompleted = 0, bountiesClaimed = 0, successRate = Fin 0, tags = [],
          recentFeedback = [], history = [] \<rparr>, ex_profile]"
  unfolding aggregateAgents_def aggregateMap_ex
  by (simp add: ex_defs js_sort_def compareAgents_def Map_values_def js_eval)

lemma bountiesOf_ex:
  "bountiesOf ''0xabc'' [ex_claimed] = [ex_claimed]" "bountiesOf ''0xdef'' [ex_claimed] = []"
  by (simp_all add: bountiesOf_def claimKey_def ex_defs js_eval)


section \<open>Facts about the success rate\<close>

lemma rateOf_bounds:
  assumes "c \<le> n" "n < 2 ^ 53"
  shows "\<exists>r. rateOf c n = Fin r \<and> 0 \<le> r \<and> r \<le> 100"
proof (cases "n = 0")
  case True
  then show ?thesis by (simp add: rateOf_def)
next
  case False
  from assms have c: "c < 2 ^ 53" by simp
  have "0 \<le> (of_nat c / of_nat n :: rat)" by simp
  moreover have "(of_nat c / of_nat n :: rat) \<le> of_int 1" using assms(1) False by simp
  ultimately obtain q where q: "rnd (of_nat c / of_nat n) = Fin q" "0 \<le> q" "q \<le> 1"
    using rnd_bounded[of "of_nat c / of_nat n" 1] by auto
  have "0 \<le> q * 100" "q * 100 \<le> of_int 100" using q by simp_all
  then obtain r where r: "rnd (q * 100) = Fin r" "0 \<le> r" "r \<le> 100"
    using rnd_bounded[of "q * 100" 100] by auto
  have "0 \<le> \<lfloor>r + 1 / 2\<rfloor>" using r(2) by simp
  moreover have "\<lfloor>r + 1 / 2\<rfloor> \<le> 100" using r(3) by (simp add: floor_le_iff)
  ultimately have "(of_int 0 :: rat) \<le> of_int \<lfloor>r + 1 / 2\<rfloor>" "(of_int \<lfloor>r + 1 / 2\<rfloor> :: rat) \<le> of_int 100"
    by (simp_all only: of_int_le_iff)
  then show ?thesis
    using False q r assms(2) c by (simp add: rateOf_def Number_of_nat_exact)
qed

lemma filter_length_le: "length (completedOf k B) \<le> length (bountiesOf k B)"
  by (simp add: completedOf_def)

lemma bountiesOf_length_le: "length (bountiesOf k B) \<le> length B"
  by (simp add: bountiesOf_def)

lemma rnd_23_40: "rnd (23 / 40) = Fin (2589569785738035 / 4503599627370496)"
  by (subst rnd_normal[where e = "- 1"]) (simp_all add: power_int_minus rne_def Let_def floor_rat_numeral)

lemma rnd_575: "rnd (2589569785738035 / 4503599627370496 * 100) = Fin (8092405580431359 / 140737488355328)"
  by (subst rnd_normal[where e = "5"]) (simp_all add: power_int_minus rne_def Let_def floor_rat_numeral)

lemma rateOf_23_40: "rateOf 23 40 = Fin 57"
proof -
  have "Number_of_nat 23 = Fin 23" "Number_of_nat 40 = Fin 40"
    by (simp_all add: Number_of_nat_def rnd_numeral)
  then show ?thesis
    using rnd_575 by (simp add: rateOf_def rnd_23_40 floor_rat_numeral)
qed

lemma roundedPercent_23_40: "roundedPercent 23 40 = Fin 58"
  by (simp add: roundedPercent_def floor_rat_numeral)

lemma bountiesOf_forty: "bountiesOf ''0xabc'' ex_forty = ex_forty"
  by (simp add: bountiesOf_def ex_forty_def claimKey_def ex_defs js_eval)

lemma completedOf_forty: "length (completedOf ''0xabc'' ex_forty) = 23"
  unfolding completedOf_def bountiesOf_forty by (simp add: ex_forty_def ex_defs)

lemma keys_forty: "fst ` set (aggregateMap ex_forty []) = {''0xabc''}"
  unfolding aggregateMap_keys
  by (auto simp: ex_forty_def claimKey_def ex_defs js_eval)

lemma distinct_singleton_set:
  assumes "distinct xs" "set xs = {x}"
  shows "xs = [x]"
proof (cases xs)
  case Nil
  with assms show ?thesis by simp
next
  case (Cons y ys)
  with assms have y: "y = x" by auto
  have "ys = []"
  proof (cases ys)
    case Nil
    then show ?thesis .
  next
    case (Cons z zs)
    with assms \<open>xs = y # ys\<close> y have "z = x" "z \<noteq> x" by auto
    then show ?thesis by simp
  qed
  with Cons y show ?thesis by simp
qed

section \<open>Facts about the earnings\<close>

lemma aggregateMap_scenario:
  "aggregateMap [ex_bounty] [] =
     [(''0xabc'', \<lparr> address = ''0xABC'', onChainReputation = Fin 0, totalEarnings = Fin 5,
         bountiesCompleted = 1, bountiesClaimed = 1, successRate = Fin 100,
         tags = [(''rust'', 1)], recentFeedback = [],
         history = [\<lparr> bountyId = ''1'', title = ''Fix bug'', reward = Fin 5,
                      status = ''completed'', date = [] \<rparr>] \<rparr>)]"
  by (simp add: ex_defs agg_eval js_eval)

lemma aggregateAgents_scenario:
  "aggregateAgents [ex_bounty] [] =
     [\<lparr> address = ''0xABC'', onChainReputation = Fin 0, totalEarnings = Fin 5,
         bountiesCompleted = 1, bountiesClaimed = 1, successRate = Fin 100,
         tags = [(''rust'', 1)], recentFeedback = [],
         history = [\<lparr> bountyId = ''1'', title = ''Fix bug'', reward = Fin 5,
                      status = ''completed'', date = [] \<rparr>] \<rparr>]"
  unfolding aggregateAgents_def aggregateMap_scenario
  by (simp add: js_sort_def Map_values_def)

lemma earnings_scenario: "earnings ''0xabc'' [ex_bounty] = Fin 5"
  by (simp add: earnings_def js_sum_def completedOf_def bountiesOf_def claimKey_def rewardOf_def
      amountOf_def ex_defs js_eval)

lemma aggregateMap_empty_amount:
  "map fst (aggregateMap [ex_empty_amount] []) = [''0xabc'']"
  "map totalEarnings (Map_values (aggregateMap [ex_empty_amount] [])) = [Fin 5]"
  by (simp_all add: ex_defs agg_eval js_eval)

lemma absentEarnings_empty_amount: "absentEarnings ''0xabc'' [ex_empty_amount] = Fin 0"
  by (simp add: absentEarnings_def absentAmount_def js_sum_def completedOf_def bountiesOf_def
      claimKey_def ex_defs js_eval)

section \<open>Facts about the addresses of the profiles\<close>

lemma lower_char_idem: "lower_char (lower_char c) = lower_char c"
  by (simp add: lower_char_def split: option.splits if_splits)

lemma toLowerCase_idem: "toLowerCase (toLowerCase s) = toLowerCase s"
  by (simp add: toLowerCase_def lower_char_idem)

lemma claimKey_claimAddr: "claimKey b = Some k \<Longrightarrow> k = toLowerCase (claimAddr b)"
  by (auto simp: claimKey_def claimAddr_def)

lemma aggregateMap_key_address:
  assumes "keyed_by_address M" "(k, p) \<in> set (aggregateMap B M)"
  shows "toLowerCase (address p) = k"
  using assms(2)
proof (cases rule: aggregateMap_entry_cases)
  case (claimed b bs)
  then have "b \<in> set (bountiesOf k B)" by simp
  then have "claimKey b = Some k" by (simp add: bountiesOf_def)
  then have "toLowerCase (claimAddr b) = k" by (rule claimKey_claimAddr[symmetric])
  with claimed show ?thesis
    by (simp add: setRate_fields fold_applyBounty_fields applyBounty_fields seedProfile_fields)
next
  case (onChain oc)
  then have "(k, oc) \<in> set M" by (simp add: map_of_SomeD)
  with assms(1) have "k = toLowerCase (address_oc oc)" by (auto simp: keyed_by_address_def)
  with onChain show ?thesis by (simp add: setRate_fields onChainProfile_fields)
qed

lemma distinct_key_count:
  "distinct (map fst m) \<Longrightarrow>
     length (filter (\<lambda>e. fst e = k) m) = (if k \<in> fst ` set m then 1 else 0)"
  by (induction m) (auto simp: image_iff)

lemma occurrences_by_key:
  assumes "keyed_by_address M"
  shows "occurrences x (aggregateAgents B M) =
     (if toLowerCase x \<in> fst ` set (aggregateMap B M) then 1 else 0)"
proof -
  let ?am = "aggregateMap B M"
  have "occurrences x (aggregateAgents B M) =
      length (filter (\<lambda>p. same_address (address p) x) (map snd ?am))"
    by (simp add: occurrences_def aggregateAgents_def filter_js_sort Map_values_def)
  also have "\<dots> = length (filter (\<lambda>e. same_address (address (snd e)) x) ?am)"
    by (simp add: filter_map comp_def)
  also have "filter (\<lambda>e. same_address (address (snd e)) x) ?am =
      filter (\<lambda>e. fst e = toLowerCase x) ?am"
  proof (rule filter_cong[OF refl])
    fix e assume "e \<in> set ?am"
    then have "toLowerCase (address (snd e)) = fst e"
      using aggregateMap_key_address[OF assms, of "fst e" "snd e" B] by simp
    then show "same_address (address (snd e)) x \<longleftrightarrow> fst e = toLowerCase x"
      by (simp add: same_address_def)
  qed
  finally show ?thesis by (simp add: distinct_key_count aggregateMap_distinct)
qed

lemma claimants_keys:
  "toLowerCase ` set (claimants B) = {k. \<exists>b \<in> set B. claimKey b = Some k}"
  by (auto simp: claimants_def claimKey_def image_iff split: option.splits) force+

lemma aggregateAgents_upper_key:
  "map address (aggregateAgents [ex_bounty] ex_upper_key) = [''0xABC'', ''0xABC'']"
  by (simp add: ex_defs agg_eval js_eval)

lemma keyed_ex_onChain: "keyed_by_address ex_onChain"
  by (simp add: keyed_by_address_def ex_defs js_eval)

section \<open>Facts about the sort keys\<close>

lemma on_grid_zero: "on_grid (Fin 0)"
  by (simp add: on_grid_def)

lemma on_grid_special: "on_grid NaN" "on_grid PInf" "on_grid NInf"
  by (simp_all add: on_grid_def)

lemma on_grid_inf_of_sign: "on_grid (inf_of_sign s)"
  by (simp add: inf_of_sign_def on_grid_special)

lemma on_grid_js_add: "on_grid (js_add x y)"
  by (cases x; cases y) (simp_all add: rnd_on_grid on_grid_special)

lemma on_grid_js_div: "on_grid (js_div x y)"
  by (cases x; cases y) (simp_all add: rnd_on_grid on_grid_inf_of_sign on_grid_zero on_grid_special)

lemma on_grid_rewardOf: "on_grid (rewardOf b)"
  by (simp add: rewardOf_def on_grid_js_div on_grid_zero split: option.splits)

lemma on_grid_foldl_add:
  "on_grid a \<Longrightarrow> on_grid (foldl js_add a xs)"
  by (induction xs arbitrary: a) (simp_all add: on_grid_js_add)

lemma on_grid_earnings: "on_grid (earnings k B)"
  unfolding earnings_def js_sum_def
  by (rule on_grid_foldl_add) (rule on_grid_zero)

lemma on_grid_reputation:
  assumes "\<forall>e \<in> set M. on_grid (reputationScore (snd e))" "(k, p) \<in> set (aggregateMap B M)"
  shows "on_grid (onChainReputation p)"
  using assms(2)
proof (cases rule: aggregateMap_entry_cases)
  case (claimed b bs)
  have "on_grid (onChainReputation (seedProfile a o'))"
    if "\<And>oc. o' = Some oc \<Longrightarrow> on_grid (reputationScore oc)" for a o'
    using that by (cases o') (simp_all add: seedProfile_def js_or_def on_grid_zero)
  moreover have "on_grid (reputationScore oc)" if "Map_get M k = Some oc" for oc
  proof -
    from that have "(k, oc) \<in> set M" by (simp add: Map_get_def map_of_SomeD)
    with assms(1) show ?thesis by force
  qed
  ultimately have "on_grid (onChainReputation (seedProfile (claimAddr b) (Map_get M k)))"
    by blast
  with claimed show ?thesis
    by (simp add: setRate_fields fold_applyBounty_fields applyBounty_fields)
next
  case (onChain oc)
  then have "(k, oc) \<in> set M" by (simp add: map_of_SomeD)
  with assms(1) have "on_grid (reputationScore oc)" by force
  with onChain show ?thesis by (simp add: setRate_fields onChainProfile_fields)
qed

lemma not_behind_in_order:
  assumes "ranked a" "ranked b" "\<not> behind a b"
  shows "in_order a b"
  using assms by (auto simp: in_order_def behind_def js_gt_def js_ge_def ranked_def numeric_def)

lemma on_grid_42: "on_grid (Fin 42)"
  by (simp add: on_grid_def)

lemma aggregateAgents_garbled:
  "map onChainReputation (aggregateAgents [ex_garbled, ex_bounty] []) = [Fin 0, Fin 0]"
  "map totalEarnings (aggregateAgents [ex_garbled, ex_bounty] []) = [NaN, Fin 5]"
  by (simp_all add: ex_defs agg_eval js_eval)

section \<open>Facts about the reader and the cache\<close>

lemma readOnChainReputation_Inr:
  assumes "readOnChainReputation a r f = Inr rep"
  shows "address_oc rep = a"
    and "reputationScore rep = (case r of Fulfilled v \<Rightarrow> Number_of_nat v | Rejected \<Rightarrow> Fin 0)"
    and "f = Rejected \<or> f = Fulfilled JOther \<Longrightarrow> feedback rep = []"
  using assms
  by (auto simp: readOnChainReputation_def Let_def split: sum.splits settled.splits json.splits)

lemma Number_of_nat_not_NaN: "Number_of_nat n \<noteq> NaN"
  by (simp add: Number_of_nat_def rnd_not_NaN)

lemma read_both_rejected:
  "readOnChainReputation a Rejected Rejected = Inr \<lparr> address_oc = a, reputationScore = Fin 0, feedback = [] \<rparr>"
  by (simp add: readOnChainReputation_def)

lemma fetchOnChainReputation_Inr: "\<exists>rep. fetchOnChainReputation w a = Inr rep"
  by (simp add: fetchOnChainReputation_def split: sum.splits)

lemma enumStep_keys:
  "map fst (enumStep w i m) =
     (case getAgentByIndex w i of
        Rejected \<Rightarrow> map fst m
      | Fulfilled a \<Rightarrow>
          if toLowerCase a \<in> fst ` set m then map fst m else map fst m @ [toLowerCase a])"
proof (cases "getAgentByIndex w i")
  case Rejected
  then show ?thesis by (simp add: enumStep_def)
next
  case (Fulfilled a)
  obtain rep where "fetchOnChainReputation w a = Inr rep"
    using fetchOnChainReputation_Inr by blast
  with Fulfilled show ?thesis by (simp add: enumStep_def keys_Map_set)
qed

lemma fold_enumStep:
  "distinct (map fst m) \<Longrightarrow>
     distinct (map fst (fold (enumStep w) is m)) \<and>
     length (fold (enumStep w) is m) \<le> length m + length is \<and>
     fst ` set (fold (enumStep w) is m) =
       fst ` set m \<union> {toLowerCase a | a i. i \<in> set is \<and> getAgentByIndex w i = Fulfilled a}"
proof (induction "is" arbitrary: m)
  case Nil
  then show ?case by simp
next
  case (Cons i "is")
  let ?m = "enumStep w i m"
  have d: "distinct (map fst ?m)"
    using Cons.prems by (simp add: enumStep_keys split: settled.splits)
  have "length (map fst ?m) \<le> length m + 1"
    unfolding enumStep_keys by (simp split: settled.splits)
  then have l: "length ?m \<le> length m + 1" by simp
  have "set (map fst ?m) = fst ` set m \<union> {toLowerCase a | a. getAgentByIndex w i = Fulfilled a}"
    unfolding enumStep_keys by (auto split: settled.splits)
  then have k: "fst ` set ?m = fst ` set m \<union> {toLowerCase a | a. getAgentByIndex w i = Fulfilled a}"
    by simp
  from Cons.IH[OF d] l show ?case
    unfolding fold_simps k by auto
qed

lemma permutes_rev: "permutes rev"
  by (simp add: permutes_def)

lemma upt_0_3: "[0..<3] = [0, 1, 2]"
  by code_simp

lemma fetchAll_ex_world:
  "map_sum id (map fst) (fetchAllOnChainAgents ex_world ex_schedule) = Inr [''0xabc'', ''0xdef'']"
  by (simp add: fetchAllOnChainAgents_def ex_world_def ex_schedule_def Let_def enumStep_def
      fetchOnChainReputation_def readOnChainReputation_def upt_0_3 js_eval)

lemma aggregateAgents_other_address:
  "map address (aggregateAgents [] ex_other_address) = [''0xDEF'']"
  by (simp add: ex_other_address_def agg_eval js_eval)

lemma Number_of_nat_nonneg: "js_ge (Number_of_nat n) (Fin 0)"
proof (cases "n = 0")
  case True
  then show ?thesis by (simp add: Number_of_nat_def rnd_zero js_ge_def)
next
  case False
  have "of_nat n * 2 ^ 1074 = (of_int (int n * 2 ^ 1074) :: rat)" by simp
  then have "js_sign (rnd (of_nat n)) = sgn (of_nat n)" by (intro rnd_sign) blast
  with False have "js_sign (Number_of_nat n) = 1" by (simp add: Number_of_nat_def)
  then show ?thesis by (cases "Number_of_nat n") (simp_all add: js_ge_def sgn_if split: if_splits)
qed

lemma getAgents_hit:
  assumes "cachedAgents c = Some agents" "now - cacheTime c < 60000"
  shows "getAgents w sch now later c = (Inr agents, c, [])"
  using assms by (simp add: getAgents_def CACHE_TTL_def)

lemma getAgents_miss:
  assumes "cachedAgents c = None \<or> 60000 \<le> now - cacheTime c"
  shows "\<exists>reqs. reqs \<noteq> [] \<and>
     ((\<exists>e. getAgents w sch now later c = (Inl e, c, reqs)) \<or>
      (\<exists>agents. getAgents w sch now later c =
             (Inr agents, \<lparr> cachedAgents = Some agents, cacheTime = later \<rparr>, reqs)))"
proof -
  from assms have m: "(if now - cacheTime c < CACHE_TTL then cachedAgents c else None) = None"
    by (auto simp: CACHE_TTL_def)
  show ?thesis
  proof (cases "filterTitled (bountiesRes w)")
    case (Inl e)
    with m show ?thesis by (simp add: getAgents_def)
  next
    case f: (Inr bounties)
    show ?thesis
    proof (cases "lowerClaimants bounties")
      case (Inl e)
      with f m show ?thesis by (simp add: getAgents_def)
    next
      case l: (Inr lowered)
      define onChain0 where
        "onChain0 = (case fetchAllOnChainAgents w sch of Inr m \<Rightarrow> m | Inl e \<Rightarrow> [])"
      define missing where
        "missing = filter (\<lambda>addr. \<not> Map_has onChain0 addr) (Set_of lowered)"
      define onChain where
        "onChain = fold (backfillStep w) (backfillOrder sch missing) onChain0"
      show ?thesis
      proof (cases "aggregateEntries bounties onChain")
        case (Inl e)
        with f l m show ?thesis
          by (simp add: getAgents_def Let_def onChain_def missing_def onChain0_def)
      next
        case (Inr agents)
        with f l m show ?thesis
          by (simp add: getAgents_def Let_def onChain_def missing_def onChain0_def)
      qed
    qed
  qed
qed


lemma getAgents_ex_dead:
  "fst (getAgents ex_dead_world ex_schedule 61000 61500 ex_cache) = Inr []"
  by (simp add: getAgents_def ex_cache_def CACHE_TTL_def filterTitled_def lowerClaimants_def
      aggregateEntries_def ex_dead_world_def
      fetchAllOnChainAgents_def ex_schedule_def Set_of_def Let_def aggregateAgents_def
      aggregateMap_def js_sort_def Map_values_def)


section \<open>The properties\<close>

text \<open>
  Claim C1, amended. For every bounty list and every on-chain map whose
  entries stand under the lower-cased address they record (as the reader builds
  it), each address that is a non-empty \<open>claimedBy\<close> of the list or a key of the
  map appears exactly once, compared case-insensitively, among the profiles of
  the aggregation, and every profile carries such an address.

  For an arbitrary map the claim fails: the aggregator looks the map up by
  lower-cased claimant and takes its keys as they are, so a key that is not in
  lower case gives a second profile of the same address, and a profile made
  from the map alone carries the address of the entry, whatever its key (the
  counterexample below).
\<close>

theorem each_address_once:
  assumes "keyed_by_address M"
  shows "(\<forall>x \<in> set (claimants B) \<union> fst ` set M. occurrences x (aggregateAgents B M) = 1) \<and>
     (\<forall>p \<in> set (aggregateAgents B M).
        \<exists>x \<in> set (claimants B) \<union> fst ` set M. same_address (address p) x)"
proof (intro conjI ballI)
  fix x assume x: "x \<in> set (claimants B) \<union> fst ` set M"
  have "toLowerCase x \<in> fst ` set (aggregateMap B M)"
  proof (cases "x \<in> set (claimants B)")
    case True
    then have "toLowerCase x \<in> toLowerCase ` set (claimants B)" by simp
    then show ?thesis unfolding aggregateMap_keys claimants_keys by simp
  next
    case False
    with x obtain oc where "(x, oc) \<in> set M" by auto
    with assms have "x = toLowerCase (address_oc oc)" by (auto simp: keyed_by_address_def)
    then have "toLowerCase x = x" by (simp add: toLowerCase_idem)
    with x False show ?thesis unfolding aggregateMap_keys by simp
  qed
  then show "occurrences x (aggregateAgents B M) = 1"
    by (simp add: occurrences_by_key[OF assms])
next
  fix p assume "p \<in> set (aggregateAgents B M)"
  then obtain k where kp: "(k, p) \<in> set (aggregateMap B M)"
    unfolding aggregateAgents_set by auto
  have a: "toLowerCase (address p) = k" by (rule aggregateMap_key_address[OF assms kp])
  from kp have "k \<in> fst ` set (aggregateMap B M)" by force
  then consider "k \<in> toLowerCase ` set (claimants B)" | "k \<in> fst ` set M"
    unfolding aggregateMap_keys claimants_keys by blast
  then show "\<exists>x \<in> set (claimants B) \<union> fst ` set M. same_address (address p) x"
  proof cases
    case 1
    then obtain x where "x \<in> set (claimants B)" "k = toLowerCase x" by auto
    with a show ?thesis by (auto simp: same_address_def)
  next
    case 2
    have "toLowerCase k = k" using a toLowerCase_idem by metis
    then have "same_address (address p) k" using a by (simp add: same_address_def)
    with 2 show ?thesis by blast
  qed
qed

theorem each_address_once_witness:
  "keyed_by_address ex_onChain \<and>
   ''0xABC'' \<in> set (claimants [ex_claimed]) \<union> fst ` set ex_onChain \<and>
   occurrences ''0xABC'' (aggregateAgents [ex_claimed] ex_onChain) = 1 \<and>
   ''0xdef'' \<in> set (claimants [ex_claimed]) \<union> fst ` set ex_onChain \<and>
   occurrences ''0xdef'' (aggregateAgents [ex_claimed] ex_onChain) = 1 \<and>
   ex_profile \<in> set (aggregateAgents [ex_claimed] ex_onChain) \<and>
   same_address (address ex_profile) ''0xABC''"
proof -
  have c: "claimants [ex_claimed] = [''0xABC'']" by (simp add: claimants_def ex_defs js_eval)
  have k: "fst ` set ex_onChain = {''0xdef''}" by (simp add: ex_defs)
  have s: "same_address (address ex_profile) ''0xABC''" by (simp add: same_address_def ex_defs)
  show ?thesis
    using each_address_once[OF keyed_ex_onChain, of "[ex_claimed]"] s
    by (simp add: keyed_ex_onChain c k aggregateAgents_ex)
qed

theorem each_address_once_counterexample:
  "''0xABC'' \<in> set (claimants [ex_bounty]) \<and> ''0xABC'' \<in> fst ` set ex_upper_key \<and>
   occurrences ''0xABC'' (aggregateAgents [ex_bounty] ex_upper_key) = 2 \<and>
   ''0xabc'' \<in> fst ` set ex_other_address \<and>
   occurrences ''0xabc'' (aggregateAgents [] ex_other_address) = 0"
proof -
  obtain p q where "aggregateAgents [ex_bounty] ex_upper_key = [p, q]"
      "address p = ''0xABC''" "address q = ''0xABC''"
    using aggregateAgents_upper_key by (auto simp: map_eq_Cons_conv)
  moreover obtain r where "aggregateAgents [] ex_other_address = [r]" "address r = ''0xDEF''"
    using aggregateAgents_other_address by (auto simp: map_eq_Cons_conv)
  ultimately show ?thesis
    by (simp add: occurrences_def same_address_def claimants_def ex_defs ex_other_address_def js_eval)
qed

text \<open>
  Claim C2. For every address and whatever the two contract reads do,
  \<open>fetchOnChainReputation\<close> returns a reputation record of that address and never
  an exception: the score is a number and not negative, it is 0 when the score
  read fails, the
  feedback is empty when the feedback read fails or returns no list, and when
  both reads fail the result is the address with score 0 and no feedback.
\<close>

theorem fetchOnChainReputation_total:
  "\<exists>rep. fetchOnChainReputation w a = Inr rep \<and>
     address_oc rep = a \<and> js_ge (reputationScore rep) (Fin 0) \<and>
     (getReputation w a = Rejected \<longrightarrow> reputationScore rep = Fin 0) \<and>
     (getFeedback w a = Rejected \<or> getFeedback w a = Fulfilled JOther \<longrightarrow> feedback rep = []) \<and>
     (getReputation w a = Rejected \<and> getFeedback w a = Rejected \<longrightarrow>
        rep = \<lparr> address_oc = a, reputationScore = Fin 0, feedback = [] \<rparr>)"
proof (cases "readOnChainReputation a (getReputation w a) (getFeedback w a)")
  case (Inl e)
  then have "\<not> (getFeedback w a = Rejected \<or> getFeedback w a = Fulfilled JOther)"
    by (auto simp: readOnChainReputation_def)
  with Inl show ?thesis by (simp add: fetchOnChainReputation_def js_ge_def)
next
  case (Inr rep)
  note f = readOnChainReputation_Inr[OF Inr]
  have "js_ge (Fin 0) (Fin 0)" by (simp add: js_ge_def)
  then have "js_ge (reputationScore rep) (Fin 0)"
    unfolding f(2) by (cases "getReputation w a") (simp_all add: Number_of_nat_nonneg)
  moreover have "rep = \<lparr> address_oc = a, reputationScore = Fin 0, feedback = [] \<rparr>"
    if "getReputation w a = Rejected" "getFeedback w a = Rejected"
    using Inr that by (simp add: read_both_rejected)
  ultimately show ?thesis
    using Inr f by (auto simp: fetchOnChainReputation_def)
qed

theorem fetchOnChainReputation_total_witness:
  "getReputation ex_dead_world ''0xABC'' = Rejected \<and>
   getFeedback ex_dead_world ''0xABC'' = Rejected \<and>
   fetchOnChainReputation ex_dead_world ''0xABC'' =
     Inr \<lparr> address_oc = ''0xABC'', reputationScore = Fin 0, feedback = [] \<rparr>"
  using fetchOnChainReputation_total[of ex_dead_world "''0xABC''"]
  by (auto simp: ex_dead_world_def)

text \<open>
  Claim C3, amended. The total earnings of a profile are the sum, over exactly
  the bounties filed under its key whose status is the string \<open>completed\<close>, in
  list order, of the reward of the bounty: \<open>grossAmount\<close> when it is a non-empty
  string, else \<open>grossReward\<close> when it is a non-empty string, else 0, read as a
  number and divided by 1,000,000, and 0 without a payment. A bounty of any
  other status has reward 0. One completed bounty with \<open>grossAmount\<close>
  \<open>5000000\<close> and an empty on-chain map gives the total 5.

  As stated the claim takes \<open>grossReward\<close> only when \<open>grossAmount\<close> is absent;
  the code takes it also when \<open>grossAmount\<close> is the empty string, see the
  counterexample below.
\<close>

theorem totalEarnings_is_sum_of_completed:
  "(\<forall>p \<in> set (aggregateAgents B M).
      \<exists>k. (k, p) \<in> set (aggregateMap B M) \<and>
          totalEarnings p = js_sum (map rewardOf (completedOf k B))) \<and>
   (\<forall>b. status_b b \<noteq> ''completed'' \<or> payment b = None \<longrightarrow> rewardOf b = Fin 0) \<and>
   (\<forall>b pay. status_b b = ''completed'' \<and> payment b = Some pay \<longrightarrow>
      rewardOf b =
        js_div (case truthy_str (grossAmount pay) of
                  Some s \<Rightarrow> StringToNumber s
                | None \<Rightarrow> (case truthy_str (grossReward pay) of
                             Some s \<Rightarrow> StringToNumber s
                           | None \<Rightarrow> Fin 0))
               (Fin 1000000)) \<and>
   map totalEarnings (aggregateAgents [ex_bounty] []) = [Fin 5]"
proof -
  have "\<exists>k. (k, p) \<in> set (aggregateMap B M) \<and> totalEarnings p = js_sum (map rewardOf (completedOf k B))"
    if "p \<in> set (aggregateAgents B M)" for p
  proof -
    from that obtain k where kp: "(k, p) \<in> set (aggregateMap B M)"
      unfolding aggregateAgents_set by auto
    from aggregateMap_counters(4)[OF kp] kp show ?thesis
      unfolding earnings_def by blast
  qed
  moreover have "rewardOf b = Fin 0" if "status_b b \<noteq> ''completed'' \<or> payment b = None" for b
    using that by (auto simp: rewardOf_def)
  moreover have "rewardOf b =
        js_div (case truthy_str (grossAmount pay) of
                  Some s \<Rightarrow> StringToNumber s
                | None \<Rightarrow> (case truthy_str (grossReward pay) of
                             Some s \<Rightarrow> StringToNumber s
                           | None \<Rightarrow> Fin 0))
               (Fin 1000000)"
    if "status_b b = ''completed'' \<and> payment b = Some pay" for b pay
    using that by (simp add: rewardOf_def amountOf_def)
  ultimately show ?thesis by (simp add: aggregateAgents_scenario)
qed

theorem totalEarnings_is_sum_of_completed_witness:
  "(\<exists>p \<in> set (aggregateAgents [ex_bounty] []).
      (''0xabc'', p) \<in> set (aggregateMap [ex_bounty] []) \<and>
      totalEarnings p = js_sum (map rewardOf (completedOf ''0xabc'' [ex_bounty])) \<and>
      totalEarnings p = Fin 5) \<and>
   status_b ex_claimed \<noteq> ''completed'' \<and> rewardOf ex_claimed = Fin 0 \<and>
   status_b ex_bounty = ''completed'' \<and>
   payment ex_bounty = Some \<lparr> grossAmount = Some ''5000000'', grossReward = None \<rparr> \<and>
   rewardOf ex_bounty = Fin 5"
proof -
  have a: "status_b ex_claimed \<noteq> ''completed''" "status_b ex_bounty = ''completed''"
    "payment ex_bounty = Some \<lparr> grossAmount = Some ''5000000'', grossReward = None \<rparr>"
    by (simp_all add: ex_defs)
  have n: "js_div (StringToNumber ''5000000'') (Fin 1000000) = Fin 5"
    by (simp add: js_eval)
  have "rewardOf ex_bounty = Fin 5"
    using totalEarnings_is_sum_of_completed[of "[ex_bounty]" "[]"] a(2,3) n
    by (simp add: truthy_str_def)
  then show ?thesis
    using totalEarnings_is_sum_of_completed[of "[ex_bounty]" "[]"] earnings_scenario a
    by (simp add: aggregateAgents_scenario aggregateMap_scenario earnings_def)
qed

theorem earnings_not_by_absence_counterexample:
  "map fst (aggregateMap [ex_empty_amount] []) = [''0xabc''] \<and>
   map totalEarnings (aggregateAgents [ex_empty_amount] []) = [Fin 5] \<and>
   absentEarnings ''0xabc'' [ex_empty_amount] = Fin 0"
proof -
  have "length (Map_values (aggregateMap [ex_empty_amount] [])) = 1"
    using aggregateMap_empty_amount(1) by (metis Map_values_def length_map list.size(3,4) One_nat_def add_0)
  then obtain p where "Map_values (aggregateMap [ex_empty_amount] []) = [p]"
    by (cases "Map_values (aggregateMap [ex_empty_amount] [])") auto
  then show ?thesis
    using aggregateMap_empty_amount
    by (simp add: aggregateAgents_def js_sort_def absentEarnings_empty_amount)
qed

text \<open>
  Claim C4, amended. For every output of the aggregation in which no
  reputation and no total of earnings is NaN (the reputation scores of the map
  being binary64 values), a profile that precedes another has a reputation that
  is not below the other's and, when the two reputations are equal, earnings
  greater than or equal to the other's; so a profile of greater reputation
  stands before one of smaller reputation.

  Without the condition the claim fails: a \<open>grossAmount\<close> that is not a numeric
  literal makes the total NaN, the comparator then returns NaN, which the sort
  reads as 0, and NaN is neither \<open>\<ge>\<close> nor \<open>\<le>\<close> any total, in whatever order the two
  profiles come out (the counterexample below). With a reputation that is NaN
  the comparator is no ordering either.
\<close>

theorem sorted_by_reputation_then_earnings:
  assumes "\<forall>e \<in> set M. on_grid (reputationScore (snd e))"
    and "\<forall>p \<in> set (aggregateAgents B M). onChainReputation p \<noteq> NaN \<and> totalEarnings p \<noteq> NaN"
  shows "sorted_wrt in_order (aggregateAgents B M) \<and>
     (\<forall>i < length (aggregateAgents B M). \<forall>j < length (aggregateAgents B M).
        js_gt (onChainReputation (aggregateAgents B M ! i))
              (onChainReputation (aggregateAgents B M ! j)) \<longrightarrow> i < j)"
proof -
  let ?out = "aggregateAgents B M"
  have r: "ranked p" if "p \<in> set ?out" for p
  proof -
    from that obtain k where kp: "(k, p) \<in> set (aggregateMap B M)"
      unfolding aggregateAgents_set by auto
    have "on_grid (totalEarnings p)"
      unfolding aggregateMap_counters(4)[OF kp] by (rule on_grid_earnings)
    moreover have "on_grid (onChainReputation p)" by (rule on_grid_reputation[OF assms(1) kp])
    ultimately show ?thesis using assms(2) that by (simp add: ranked_def numeric_def)
  qed
  then have "\<forall>x \<in> set (Map_values (aggregateMap B M)). ranked x"
    by (simp add: aggregateAgents_def set_js_sort)
  then have "sorted_wrt (\<lambda>a b. \<not> behind a b) ?out"
    unfolding aggregateAgents_def by (rule sorted_js_sort)
  then have s: "sorted_wrt in_order ?out"
    by (rule sorted_wrt_mono_rel[rotated]) (simp add: not_behind_in_order r)
  have "i < j" if "i < length ?out" "j < length ?out"
      "js_gt (onChainReputation (?out ! i)) (onChainReputation (?out ! j))" for i j
  proof (rule ccontr)
    assume "\<not> i < j"
    then consider "i = j" | "j < i" by linarith
    then show False
    proof cases
      case 1
      with that(3) show False by (simp add: js_gt_def js_lt_irrefl)
    next
      case 2
      with s that(1) have "in_order (?out ! j) (?out ! i)" by (simp add: sorted_wrt_iff_nth_less)
      with that(3) show False by (simp add: in_order_def)
    qed
  qed
  with s show ?thesis by blast
qed

theorem sorted_by_reputation_then_earnings_witness:
  "list_all (\<lambda>e. on_grid (reputationScore (snd e))) ex_onChain \<and>
   list_all (\<lambda>p. onChainReputation p \<noteq> NaN \<and> totalEarnings p \<noteq> NaN)
     (aggregateAgents [ex_claimed] ex_onChain) \<and>
   map onChainReputation (aggregateAgents [ex_claimed] ex_onChain) = [Fin 42, Fin 0] \<and>
   sorted_wrt in_order (aggregateAgents [ex_claimed] ex_onChain) \<and>
   js_gt (onChainReputation (aggregateAgents [ex_claimed] ex_onChain ! 0))
         (onChainReputation (aggregateAgents [ex_claimed] ex_onChain ! 1))"
proof -
  have a: "\<forall>e \<in> set ex_onChain. on_grid (reputationScore (snd e))"
    by (simp add: ex_onChain_def on_grid_42)
  have b: "\<forall>p \<in> set (aggregateAgents [ex_claimed] ex_onChain).
      onChainReputation p \<noteq> NaN \<and> totalEarnings p \<noteq> NaN"
    by (simp add: aggregateAgents_ex ex_profile_def)
  show ?thesis
    using a b sorted_by_reputation_then_earnings[OF a b]
    by (simp add: aggregateAgents_ex ex_profile_def js_gt_def list_all_iff)
qed

theorem sorted_by_reputation_then_earnings_counterexample:
  "map onChainReputation (aggregateAgents [ex_garbled, ex_bounty] []) = [Fin 0, Fin 0] \<and>
   map totalEarnings (aggregateAgents [ex_garbled, ex_bounty] []) = [NaN, Fin 5] \<and>
   \<not> js_ge NaN (Fin 5) \<and> \<not> js_ge (Fin 5) NaN \<and>
   \<not> sorted_wrt in_order (aggregateAgents [ex_garbled, ex_bounty] [])"
proof -
  obtain p q where o: "aggregateAgents [ex_garbled, ex_bounty] [] = [p, q]"
    and f: "onChainReputation p = Fin 0" "onChainReputation q = Fin 0"
      "totalEarnings p = NaN" "totalEarnings q = Fin 5"
    using aggregateAgents_garbled by (auto simp: map_eq_Cons_conv)
  then have "\<not> in_order p q" by (simp add: in_order_def js_ge_def)
  with o f show ?thesis by (simp add: js_ge_def)
qed

text \<open>
  Claim C5. For every bounty list (a JavaScript array, so shorter than \<open>2 ^ 32\<close>)
  and every on-chain map, every profile of the aggregation has
  \<open>bountiesCompleted \<le> bountiesClaimed\<close> and a success rate between 0 and 100.
\<close>

theorem completed_le_claimed_and_rate_in_range:
  assumes "length B < 2 ^ 32"
  shows "\<forall>p \<in> set (aggregateAgents B M).
     bountiesCompleted p \<le> bountiesClaimed p \<and>
     js_ge (successRate p) (Fin 0) \<and> js_ge (Fin 100) (successRate p)"
proof
  fix p assume "p \<in> set (aggregateAgents B M)"
  then obtain k where kp: "(k, p) \<in> set (aggregateMap B M)"
    unfolding aggregateAgents_set by auto
  note f = aggregateMap_counters[OF kp]
  have le: "bountiesCompleted p \<le> bountiesClaimed p"
    unfolding f(1) f(3) by (rule filter_length_le)
  have "bountiesClaimed p \<le> length B" unfolding f(1) by (rule bountiesOf_length_le)
  also have "length B < 2 ^ 32" by fact
  also have "(2::nat) ^ 32 < 2 ^ 53" by simp
  finally have "bountiesClaimed p < 2 ^ 53" .
  from rateOf_bounds[OF le this] obtain r where
    "successRate p = Fin r" "0 \<le> r" "r \<le> 100" unfolding f(5) by blast
  with le show "bountiesCompleted p \<le> bountiesClaimed p \<and>
     js_ge (successRate p) (Fin 0) \<and> js_ge (Fin 100) (successRate p)"
    by (simp add: js_ge_def)
qed

theorem completed_le_claimed_and_rate_in_range_witness:
  "length [ex_claimed] < 2 ^ 32 \<and> ex_profile \<in> set (aggregateAgents [ex_claimed] ex_onChain) \<and>
   bountiesCompleted ex_profile \<le> bountiesClaimed ex_profile \<and>
   js_ge (successRate ex_profile) (Fin 0) \<and> js_ge (Fin 100) (successRate ex_profile)"
proof -
  have h: "length [ex_claimed] < 2 ^ 32" by simp
  show ?thesis
    using h completed_le_claimed_and_rate_in_range[OF h, of ex_onChain]
    by (simp add: aggregateAgents_ex)
qed

text \<open>
  Claim C6. The success rate is 0 when nothing is claimed and otherwise
  \<open>100 * completed / claimed\<close> rounded to the nearest integer. The code divides
  first and multiplies then, each in binary64: of forty claimed bounties with 23
  completed it makes 57, where \<open>100 * 23 / 40 = 57.5\<close> rounds to 58.
\<close>

theorem successRate_of_23_in_40:
  "map bountiesCompleted (aggregateAgents ex_forty []) = [23] \<and>
   map bountiesClaimed (aggregateAgents ex_forty []) = [40] \<and>
   map successRate (aggregateAgents ex_forty []) = [Fin 57] \<and>
   roundedPercent 23 40 = Fin 58"
proof -
  have d: "distinct (map fst (aggregateMap ex_forty []))" by (rule aggregateMap_distinct)
  have "set (map fst (aggregateMap ex_forty [])) = {''0xabc''}" using keys_forty by simp
  with d have "map fst (aggregateMap ex_forty []) = [''0xabc'']"
    by (rule distinct_singleton_set)
  then obtain p where m: "aggregateMap ex_forty [] = [(''0xabc'', p)]"
    by (cases "aggregateMap ex_forty []") auto
  then have "(''0xabc'', p) \<in> set (aggregateMap ex_forty [])" by simp
  note f = aggregateMap_counters[OF this]
  have "bountiesClaimed p = 40" unfolding f(1) bountiesOf_forty by (simp add: ex_forty_def)
  moreover have "bountiesCompleted p = 23" unfolding f(3) by (rule completedOf_forty)
  ultimately have "successRate p = Fin 57" "bountiesClaimed p = 40" "bountiesCompleted p = 23"
    using f(5) rateOf_23_40 by simp_all
  then show ?thesis
    by (simp add: aggregateAgents_def m Map_values_def js_sort_def roundedPercent_23_40)
qed

text \<open>
  Claim C7. The profile getter is memoized for 60 seconds (60000 ms) from
  the clock reading taken when the last successful computation was finished: a
  call that finds a cached result less than 60000 ms old returns it as it is,
  leaves the cache as it is and issues no request. Any other call issues
  requests and either fails, leaving the cache as it is, or stores its result
  with the clock reading of its completion, so that every call less than 60000
  ms after that reading gets the stored result without a request, whatever the
  world answers by then.
\<close>

theorem getAgents_memoized:
  "(\<forall>agents. cachedAgents c = Some agents \<and> now - cacheTime c < 60000 \<longrightarrow>
      getAgents w sch now later c = (Inr agents, c, [])) \<and>
   (cachedAgents c = None \<or> 60000 \<le> now - cacheTime c \<longrightarrow>
      (\<exists>reqs. reqs \<noteq> [] \<and>
         ((\<exists>e. getAgents w sch now later c = (Inl e, c, reqs)) \<or>
          (\<exists>agents.
             getAgents w sch now later c =
               (Inr agents, \<lparr> cachedAgents = Some agents, cacheTime = later \<rparr>, reqs) \<and>
             (\<forall>w' sch' t t'. t - later < 60000 \<longrightarrow>
                getAgents w' sch' t t' \<lparr> cachedAgents = Some agents, cacheTime = later \<rparr> =
                  (Inr agents, \<lparr> cachedAgents = Some agents, cacheTime = later \<rparr>, []))))))"
proof (intro conjI allI impI)
  fix agents assume "cachedAgents c = Some agents \<and> now - cacheTime c < 60000"
  then show "getAgents w sch now later c = (Inr agents, c, [])" by (simp add: getAgents_hit)
next
  assume "cachedAgents c = None \<or> 60000 \<le> now - cacheTime c"
  from getAgents_miss[OF this, of w sch later] obtain reqs where r: "reqs \<noteq> []"
    and g: "(\<exists>e. getAgents w sch now later c = (Inl e, c, reqs)) \<or>
      (\<exists>agents. getAgents w sch now later c =
             (Inr agents, \<lparr> cachedAgents = Some agents, cacheTime = later \<rparr>, reqs))"
    by blast
  have h: "getAgents w' sch' t t' \<lparr> cachedAgents = Some agents, cacheTime = later \<rparr> =
      (Inr agents, \<lparr> cachedAgents = Some agents, cacheTime = later \<rparr>, [])"
    if "t - later < 60000" for w' sch' t t' agents
    using that by (simp add: getAgents_hit)
  show "\<exists>reqs. reqs \<noteq> [] \<and>
         ((\<exists>e. getAgents w sch now later c = (Inl e, c, reqs)) \<or>
          (\<exists>agents.
             getAgents w sch now later c =
               (Inr agents, \<lparr> cachedAgents = Some agents, cacheTime = later \<rparr>, reqs) \<and>
             (\<forall>w' sch' t t'. t - later < 60000 \<longrightarrow>
                getAgents w' sch' t t' \<lparr> cachedAgents = Some agents, cacheTime = later \<rparr> =
                  (Inr agents, \<lparr> cachedAgents = Some agents, cacheTime = later \<rparr>, []))))"
  proof (cases "\<exists>e. getAgents w sch now later c = (Inl e, c, reqs)")
    case True
    with r show ?thesis by blast
  next
    case False
    with g obtain agents where "getAgents w sch now later c =
             (Inr agents, \<lparr> cachedAgents = Some agents, cacheTime = later \<rparr>, reqs)" by auto
    with r h show ?thesis by blast
  qed
qed

theorem getAgents_memoized_witness:
  "cachedAgents ex_cache = Some [ex_profile] \<and> 60999 - cacheTime ex_cache < 60000 \<and>
   getAgents ex_world ex_schedule 60999 61500 ex_cache = (Inr [ex_profile], ex_cache, []) \<and>
   60000 \<le> 61000 - cacheTime ex_cache \<and>
   (\<exists>reqs. getAgents ex_dead_world ex_schedule 61000 61500 ex_cache =
        (Inr [], \<lparr> cachedAgents = Some [], cacheTime = 61500 \<rparr>, reqs) \<and> reqs \<noteq> []) \<and>
   getAgents ex_world ex_schedule 121499 121600 \<lparr> cachedAgents = Some [], cacheTime = 61500 \<rparr> =
        (Inr [], \<lparr> cachedAgents = Some [], cacheTime = 61500 \<rparr>, [])"
proof -
  have a: "cachedAgents ex_cache = Some [ex_profile]" "cacheTime ex_cache = 1000"
    by (simp_all add: ex_cache_def)
  have m: "cachedAgents ex_cache = None \<or> 60000 \<le> 61000 - cacheTime ex_cache"
    by (simp add: a)
  from getAgents_memoized[of ex_cache 61000 ex_dead_world ex_schedule 61500] m
  obtain reqs where r: "reqs \<noteq> []" and
    g: "(\<exists>e. getAgents ex_dead_world ex_schedule 61000 61500 ex_cache = (Inl e, ex_cache, reqs)) \<or>
        (\<exists>agents.
           getAgents ex_dead_world ex_schedule 61000 61500 ex_cache =
             (Inr agents, \<lparr> cachedAgents = Some agents, cacheTime = 61500 \<rparr>, reqs) \<and>
           (\<forall>w' sch' t t'. t - 61500 < 60000 \<longrightarrow>
              getAgents w' sch' t t' \<lparr> cachedAgents = Some agents, cacheTime = 61500 \<rparr> =
                (Inr agents, \<lparr> cachedAgents = Some agents, cacheTime = 61500 \<rparr>, [])))"
    by blast
  from g getAgents_ex_dead have
    g1: "getAgents ex_dead_world ex_schedule 61000 61500 ex_cache =
             (Inr [], \<lparr> cachedAgents = Some [], cacheTime = 61500 \<rparr>, reqs)"
    and h: "\<forall>w' sch' t t'. t - 61500 < 60000 \<longrightarrow>
              getAgents w' sch' t t' \<lparr> cachedAgents = Some [], cacheTime = 61500 \<rparr> =
                (Inr [], \<lparr> cachedAgents = Some [], cacheTime = 61500 \<rparr>, [])"
    by auto
  have "(121499::int) - 61500 < 60000" by simp
  with h have g2: "getAgents ex_world ex_schedule 121499 121600
      \<lparr> cachedAgents = Some [], cacheTime = 61500 \<rparr> =
        (Inr [], \<lparr> cachedAgents = Some [], cacheTime = 61500 \<rparr>, [])"
    by blast
  from getAgents_memoized[of ex_cache 60999 ex_world ex_schedule 61500] a g1 g2 r
  show ?thesis by simp
qed

text \<open>
  Claim C8. \<open>fetchAllOnChainAgents\<close> returns the empty map whenever the read of
  the agent count fails. Otherwise, in whatever order the per-index tasks
  finish, the map it returns has at most \<open>min count 50\<close> entries and its keys
  are exactly the lower-cased addresses of the indices below \<open>min count 50\<close>
  whose read succeeded: an index whose read fails leaves no trace.
\<close>

theorem fetchAllOnChainAgents_keys:
  assumes "permutes (enumOrder sch)"
  shows "(getAgentCount w = Rejected \<longrightarrow> fetchAllOnChainAgents w sch = Inr []) \<and>
     (\<forall>count. getAgentCount w = Fulfilled count \<longrightarrow>
        (\<exists>m. fetchAllOnChainAgents w sch = Inr m \<and>
           distinct (map fst m) \<and>
           length m \<le> min count 50 \<and>
           (\<forall>k \<in> fst ` set m. toLowerCase k = k) \<and>
           fst ` set m =
             {toLowerCase a | a i. i < min count 50 \<and> getAgentByIndex w i = Fulfilled a}))"
proof (intro conjI allI impI)
  assume "getAgentCount w = Rejected"
  then show "fetchAllOnChainAgents w sch = Inr []" by (simp add: fetchAllOnChainAgents_def)
next
  fix count assume c: "getAgentCount w = Fulfilled count"
  define n where "n = min count 50"
  define ord where "ord = enumOrder sch [0..<n]"
  define m where "m = fold (enumStep w) ord []"
  from assms have o: "distinct ord" "set ord = {0..<n}"
    by (simp_all add: permutes_def ord_def)
  then have "length ord = n" by (metis card_atLeastLessThan distinct_card minus_nat.diff_0)
  with fold_enumStep[of "[]" w ord] o
  have f: "distinct (map fst m)" "length m \<le> n"
    "fst ` set m = {toLowerCase a | a i. i < n \<and> getAgentByIndex w i = Fulfilled a}"
    by (simp_all add: m_def)
  have r: "fetchAllOnChainAgents w sch = Inr m"
  proof (cases "0 < count")
    case True
    with c show ?thesis by (simp add: fetchAllOnChainAgents_def Let_def m_def ord_def n_def)
  next
    case False
    then have "n = 0" by (simp add: n_def)
    with f(2) have "m = []" by simp
    with c False show ?thesis by (simp add: fetchAllOnChainAgents_def)
  qed
  have "toLowerCase k = k" if "k \<in> fst ` set m" for k
    using that unfolding f(3) by (auto simp: toLowerCase_idem)
  with r f show "\<exists>m. fetchAllOnChainAgents w sch = Inr m \<and>
           distinct (map fst m) \<and>
           length m \<le> min count 50 \<and>
           (\<forall>k \<in> fst ` set m. toLowerCase k = k) \<and>
           fst ` set m =
             {toLowerCase a | a i. i < min count 50 \<and> getAgentByIndex w i = Fulfilled a}"
    unfolding n_def by blast
qed

theorem fetchAllOnChainAgents_keys_witness:
  "permutes (enumOrder ex_schedule) \<and>
   getAgentCount ex_dead_world = Rejected \<and>
   fetchAllOnChainAgents ex_dead_world ex_schedule = Inr [] \<and>
   getAgentCount ex_world = Fulfilled 3 \<and>
   (\<exists>m. fetchAllOnChainAgents ex_world ex_schedule = Inr m \<and> map fst m = [''0xabc'', ''0xdef''] \<and>
        length m \<le> min 3 50 \<and> (\<forall>k \<in> fst ` set m. toLowerCase k = k))"
proof -
  have p: "permutes (enumOrder ex_schedule)" by (simp add: ex_schedule_def permutes_rev)
  have a: "getAgentCount ex_dead_world = Rejected" "getAgentCount ex_world = Fulfilled 3"
    by (simp_all add: ex_dead_world_def ex_world_def)
  from fetchAllOnChainAgents_keys[OF p, of ex_world] a(2)
  obtain m where m: "fetchAllOnChainAgents ex_world ex_schedule = Inr m" "length m \<le> min 3 50"
      "\<forall>k \<in> fst ` set m. toLowerCase k = k" by blast
  with fetchAll_ex_world have "map fst m = [''0xabc'', ''0xdef'']" by simp
  with m p a fetchAllOnChainAgents_keys[OF p, of ex_dead_world] show ?thesis by simp
qed




text \<open>
  Claim C10. For every bounty list and on-chain map, every profile of the
  aggregation has \<open>bountiesClaimed\<close> equal to the length of its history: a
  profile holds one history entry and one count per bounty filed under its key,
  and a profile that comes from the on-chain map alone has count 0 and an
  empty history.
\<close>

theorem claimed_is_history_length:
  "(\<forall>p \<in> set (aggregateAgents B M). bountiesClaimed p = length (history p)) \<and>
   (\<forall>e \<in> set (aggregateMap B M).
      bountiesClaimed (snd e) = length (bountiesOf (fst e) B) \<and>
      length (history (snd e)) = length (bountiesOf (fst e) B) \<and>
      (bountiesOf (fst e) B = [] \<longrightarrow> bountiesClaimed (snd e) = 0 \<and> history (snd e) = []))"
proof -
  have "bountiesClaimed p = length (bountiesOf k B) \<and> length (history p) = length (bountiesOf k B)"
    if "(k, p) \<in> set (aggregateMap B M)" for k p
    using aggregateMap_counters(1,2)[OF that] by simp
  then show ?thesis
    unfolding aggregateAgents_set by (auto simp del: length_0_conv) fastforce+
qed

theorem claimed_is_history_length_witness:
  "ex_profile \<in> set (aggregateAgents [ex_claimed] ex_onChain) \<and>
   bountiesClaimed ex_profile = length (history ex_profile) \<and>
   (''0xabc'', ex_profile) \<in> set (aggregateMap [ex_claimed] ex_onChain) \<and>
   bountiesClaimed ex_profile = length (bountiesOf ''0xabc'' [ex_claimed]) \<and>
   (\<exists>e \<in> set (aggregateMap [ex_claimed] ex_onChain).
      bountiesOf (fst e) [ex_claimed] = [] \<and> bountiesClaimed (snd e) = 0 \<and> history (snd e) = [])"
  using claimed_is_history_length[of "[ex_claimed]" ex_onChain]
  by (simp add: aggregateAgents_ex aggregateMap_ex bountiesOf_ex)

end
